theory Spec2Isabelle
  imports Main "HOL-Library.Char_ord" "HOL-Library.List_Lexorder" "HOL-Library.Option_ord"
begin

section \<open>Markdown to JSONL conversion and text search\<close>

text \<open>
  A shallow embedding of \<^verbatim>\<open>src/processor/markdown/markdown_to_jsonl.py\<close> and
  \<^verbatim>\<open>src/search_type/text_search.py\<close>. Python exceptions are values of the type
  \<open>error\<close>; a function that may raise returns \<open>error + 'a\<close>, with \<open>Inl\<close> for the
  exception. Calls to the logger are left out: they change nothing the program computes.
\<close>

datatype error =
  IndexError
| KeyError
| FileNotFoundError
| SystemExit nat

subsection \<open>Strings: \<^verbatim>\<open>str.strip\<close>, \<^verbatim>\<open>re.split\<close>, lines\<close>

definition strip :: "string \<Rightarrow> string \<Rightarrow> string" where
  \<comment> \<open>\<^verbatim>\<open>s.strip(chars)\<close>: drops the characters of \<open>chars\<close> from both ends of \<open>s\<close>.\<close>
  "strip chars s =
     rev (dropWhile (\<lambda>c. c \<in> set chars) (rev (dropWhile (\<lambda>c. c \<in> set chars) s)))"

fun cons_to_first :: "char \<Rightarrow> string list \<Rightarrow> string list" where
  "cons_to_first c [] = [[c]]"
| "cons_to_first c (s # ss) = (c # s) # ss"

fun re_split_heading :: "bool \<Rightarrow> string \<Rightarrow> string list" where
  \<comment> \<open>\<^verbatim>\<open>re.split(r'^#', content, flags=re.MULTILINE)\<close>: the pattern matches a \<^verbatim>\<open>#\<close> at
      the start of the content or right after a newline; the pieces between the matches
      are returned, the matched \<^verbatim>\<open>#\<close> dropped. The flag says whether the next character
      is at the start of a line.\<close>
  "re_split_heading bol [] = [[]]"
| "re_split_heading bol (c # cs) =
     (if bol \<and> c = CHR ''#'' then [] # re_split_heading False cs
      else cons_to_first c (re_split_heading (c = CHR 0x0A) cs))"

fun split_lines :: "string \<Rightarrow> string list" where
  \<comment> \<open>The lines of a text, as \<^verbatim>\<open>text.split('\n')\<close> gives them.\<close>
  "split_lines [] = [[]]"
| "split_lines (c # cs) =
     (if c = CHR 0x0A then [] # split_lines cs
      else cons_to_first c (split_lines cs))"

definition is_heading :: "string \<Rightarrow> bool" where
  \<comment> \<open>A line that begins with \<^verbatim>\<open>#\<close>.\<close>
  "is_heading l = (take 1 l = ''#'')"

definition heading_lines :: "string \<Rightarrow> nat" where
  \<comment> \<open>The number of lines of the content that begin with \<^verbatim>\<open>#\<close> (the spec's N).\<close>
  "heading_lines content = length (filter is_heading (split_lines content))"

definition leading_content :: "string \<Rightarrow> string" where
  \<comment> \<open>The text of the content before its first line that begins with \<^verbatim>\<open>#\<close>.\<close>
  "leading_content content = hd (re_split_heading True content)"

subsection \<open>Markdown segmentation\<close>

record world =
  files :: "string \<rightharpoonup> string"
  stdout :: "string list"
  opened :: "string list"

text \<open>
  The state the converter acts on: the content of every file, the lines printed so far
  and the paths opened for reading so far.
\<close>

definition markdown_entries_per_file :: "string \<Rightarrow> string \<Rightarrow> string list" where
  \<comment> \<open>Lines 81 to 83: every piece of the split, stripped and prefixed with \<^verbatim>\<open>#\<close>. The
      constant \<^verbatim>\<open>empty_escape_sequences\<close> of \<^verbatim>\<open>src/utils/constants.py\<close> is the
      parameter \<open>ees\<close>.\<close>
  "markdown_entries_per_file ees markdown_content =
     map (\<lambda>entry. CHR ''#'' # strip ees entry) (re_split_heading True markdown_content)"

fun extract_loop ::
  "string \<Rightarrow> string list \<Rightarrow> world \<Rightarrow> string list \<times> string list
     \<Rightarrow> world \<times> (error + (string list \<times> string list))" where
  \<comment> \<open>The loop of \<^verbatim>\<open>extract_markdown_entries\<close> over the files, with the two lists it
      grows. Opening a file that is not there raises.\<close>
  "extract_loop ees [] w (entries, entry_to_file_map) = (w, Inr (entries, entry_to_file_map))"
| "extract_loop ees (markdown_file # rest) w (entries, entry_to_file_map) =
     (let w' = w\<lparr>opened := opened w @ [markdown_file]\<rparr>
      in case files w markdown_file of
           None \<Rightarrow> (w', Inl FileNotFoundError)
         | Some markdown_content \<Rightarrow>
             (let per_file = markdown_entries_per_file ees markdown_content
              in extract_loop ees rest w'
                   (entries @ per_file,
                    entry_to_file_map @ replicate (length per_file) markdown_file)))"

definition extract_markdown_entries ::
  "string \<Rightarrow> world \<Rightarrow> string list \<Rightarrow> world \<times> (error + (string list \<times> string list))" where
  "extract_markdown_entries ees w markdown_files = extract_loop ees markdown_files w ([], [])"

subsection \<open>JSON Lines\<close>

definition hex_digit :: "nat \<Rightarrow> char" where
  "hex_digit n = (''0123456789abcdef'' ! (n mod 16))"

definition json_escape_char :: "char \<Rightarrow> string" where
  \<comment> \<open>The escapes of \<^verbatim>\<open>json.dumps(..., ensure_ascii=False)\<close>: quote, backslash and the
      control characters below \<^verbatim>\<open>0x20\<close>; every other character stays as it is.\<close>
  "json_escape_char c =
     (if c = CHR ''\"'' then [CHR 0x5C, CHR ''\"'']
      else if c = CHR 0x5C then [CHR 0x5C, CHR 0x5C]
      else if c = CHR 0x0A then [CHR 0x5C, CHR ''n'']
      else if c = CHR 0x0D then [CHR 0x5C, CHR ''r'']
      else if c = CHR 0x09 then [CHR 0x5C, CHR ''t'']
      else if c = CHR 0x08 then [CHR 0x5C, CHR ''b'']
      else if c = CHR 0x0C then [CHR 0x5C, CHR ''f'']
      else if (of_char c :: nat) < 32
        then [CHR 0x5C, CHR ''u'', CHR ''0'', CHR ''0'',
              hex_digit ((of_char c :: nat) div 16), hex_digit (of_char c :: nat)]
      else [c])"

definition json_string :: "string \<Rightarrow> string" where
  "json_string s = [CHR ''\"''] @ concat (map json_escape_char s) @ [CHR ''\"'']"

fun json_items :: "(string \<times> string) list \<Rightarrow> string" where
  "json_items [] = []"
| "json_items [(k, v)] = json_string k @ '': '' @ json_string v"
| "json_items ((k, v) # kvs) = json_string k @ '': '' @ json_string v @ '', '' @ json_items kvs"

definition json_dumps :: "(string \<times> string) list \<Rightarrow> string" where
  \<comment> \<open>\<^verbatim>\<open>json.dumps\<close> of a dictionary from strings to strings, the keys in insertion order.\<close>
  "json_dumps d = ''{'' @ json_items d @ ''}''"

definition entry_dict :: "string \<Rightarrow> string \<Rightarrow> (string \<times> string) list" where
  \<comment> \<open>Line 94: the dictionary of one entry.\<close>
  "entry_dict entry file = [(''compiled'', entry), (''raw'', entry), (''file'', file)]"

fun convert_loop :: "string list \<Rightarrow> nat \<Rightarrow> string list \<Rightarrow> string \<Rightarrow> error + string" where
  \<comment> \<open>The loop of \<^verbatim>\<open>convert_markdown_entries_to_jsonl\<close>: \<open>entry_id\<close> counts the entries
      done, \<open>jsonl\<close> is the text built so far. Reading the file map out of range raises.\<close>
  "convert_loop entry_to_file_map entry_id [] jsonl = Inr jsonl"
| "convert_loop entry_to_file_map entry_id (entry # rest) jsonl =
     (if entry_id < length entry_to_file_map
      then convert_loop entry_to_file_map (Suc entry_id) rest
             (jsonl @ json_dumps (entry_dict entry (entry_to_file_map ! entry_id)) @ [CHR 0x0A])
      else Inl IndexError)"

definition convert_markdown_entries_to_jsonl :: "string list \<Rightarrow> string list \<Rightarrow> error + string" where
  "convert_markdown_entries_to_jsonl entries entry_to_file_map =
     convert_loop entry_to_file_map 0 entries []"

subsection \<open>The converter\<close>

record env =
  get_absolute_path :: "string \<Rightarrow> string"
  glob :: "string \<Rightarrow> string list"
  set_iter :: "string set \<Rightarrow> string list"
  empty_escape_sequences :: string
  gzip :: "string \<Rightarrow> string"

text \<open>
  What the converter takes from outside the two source files: \<^verbatim>\<open>get_absolute_path\<close> (of
  \<^verbatim>\<open>src/utils/helpers.py\<close>), \<^verbatim>\<open>glob.glob\<close>, the order in which Python iterates a set of
  strings, the constant \<^verbatim>\<open>empty_escape_sequences\<close> and gzip compression. Nothing is
  assumed of them.
\<close>

definition is_none_or_empty :: "'a list option \<Rightarrow> bool" where
  \<comment> \<open>Modelled from the spec: \<^verbatim>\<open>is_none_or_empty\<close> of \<^verbatim>\<open>src/utils/helpers.py\<close>, true of
      \<^verbatim>\<open>None\<close> and of an empty list or string.\<close>
  "is_none_or_empty item = (case item of None \<Rightarrow> True | Some xs \<Rightarrow> xs = [])"

definition dump_jsonl :: "string \<Rightarrow> string \<Rightarrow> world \<Rightarrow> world" where
  \<comment> \<open>Modelled from the spec: \<^verbatim>\<open>dump_jsonl\<close> of \<^verbatim>\<open>src/utils/jsonl.py\<close> writes the records
      to the output file as JSON Lines.\<close>
  "dump_jsonl jsonl_data output_path w = w\<lparr>files := (files w)(output_path \<mapsto> jsonl_data)\<rparr>"

definition compress_jsonl_data :: "env \<Rightarrow> string \<Rightarrow> string \<Rightarrow> world \<Rightarrow> world" where
  \<comment> \<open>Modelled from the spec: \<^verbatim>\<open>compress_jsonl_data\<close> of \<^verbatim>\<open>src/utils/jsonl.py\<close> writes
      the records to the output file gzip-compressed.\<close>
  "compress_jsonl_data e jsonl_data output_path w =
     w\<lparr>files := (files w)(output_path \<mapsto> gzip e jsonl_data)\<rparr>"

definition path_name :: "string \<Rightarrow> string" where
  \<comment> \<open>\<^verbatim>\<open>PurePath.name\<close>: the last component of the path.\<close>
  "path_name p = rev (takeWhile (\<lambda>c. c \<noteq> CHR ''/'') (rev p))"

definition path_suffix :: "string \<Rightarrow> string" where
  \<comment> \<open>\<^verbatim>\<open>PurePath.suffix\<close>: with \<open>i\<close> the place of the last dot of the name, the name
      from \<open>i\<close> on when \<open>0 < i < len(name) - 1\<close>, else the empty string.\<close>
  "path_suffix p =
     (let name = path_name p;
          ext = rev (takeWhile (\<lambda>c. c \<noteq> CHR ''.'') (rev name))
      in if CHR ''.'' \<in> set name \<and> ext \<noteq> [] \<and> Suc (length ext) < length name
         then CHR ''.'' # ext else [])"

definition get_markdown_files :: "env \<Rightarrow> string list option \<Rightarrow> string option \<Rightarrow> string set" where
  "get_markdown_files e markdown_files markdown_file_filter =
     (let absolute_markdown_files =
            (case markdown_files of
               None \<Rightarrow> {}
             | Some fs \<Rightarrow> if fs = [] then {} else set (map (get_absolute_path e) fs));
          filtered_markdown_files =
            (case markdown_file_filter of
               None \<Rightarrow> {}
             | Some pat \<Rightarrow> if pat = [] then {} else set (glob e (get_absolute_path e pat)))
      in absolute_markdown_files \<union> filtered_markdown_files)"

definition required_message :: string where
  "required_message =
     ''At least one of markdown-files or markdown-file-filter is required to be specified''"

definition markdown_to_jsonl ::
  "env \<Rightarrow> world \<Rightarrow> string list option \<Rightarrow> string option \<Rightarrow> string
     \<Rightarrow> world \<times> (error + string list)" where
  "markdown_to_jsonl e w markdown_files markdown_file_filter output_file =
     (if is_none_or_empty markdown_files \<and> is_none_or_empty markdown_file_filter
      then (w\<lparr>stdout := stdout w @ [required_message]\<rparr>, Inl (SystemExit 1))
      else
        (let all_files = set_iter e (get_markdown_files e markdown_files markdown_file_filter)
         in case extract_markdown_entries (empty_escape_sequences e) w all_files of
              (w1, Inl err) \<Rightarrow> (w1, Inl err)
            | (w1, Inr (entries, entry_to_file_map)) \<Rightarrow>
                (case convert_markdown_entries_to_jsonl entries entry_to_file_map of
                   Inl err \<Rightarrow> (w1, Inl err)
                 | Inr jsonl_data \<Rightarrow>
                     (if path_suffix output_file = ''.gz''
                        then compress_jsonl_data e jsonl_data output_file w1
                      else if path_suffix output_file = ''.jsonl''
                        then dump_jsonl jsonl_data output_file w1
                      else w1,
                      Inr entries))))"

subsection \<open>Text search: data\<close>

record entry =
  compiled :: string
  raw :: string
  entry_file :: string

text \<open>
  An entry of the corpus, a dictionary with the keys \<^verbatim>\<open>compiled\<close>, \<^verbatim>\<open>raw\<close> and \<^verbatim>\<open>file\<close>
  (the field \<open>entry_file\<close>).
\<close>

record 's hit =
  corpus_id :: nat
  score :: 's
  cross_score :: "'s option"

record base_filter =
  can_filter :: "string \<Rightarrow> bool"
  apply_filter :: "string \<Rightarrow> entry list \<Rightarrow> string \<times> nat set"

text \<open>
  A filter (\<^verbatim>\<open>BaseFilter\<close>, not among the sources) is its two methods: \<^verbatim>\<open>can_filter\<close>, and
  \<^verbatim>\<open>apply\<close>, which gives the rewritten query and the set of indices it keeps.
\<close>

record ('e, 's) text_search_model =
  entries :: "entry list"
  corpus_embeddings :: "'e list"
  bi_encoder :: "string \<Rightarrow> 'e"
  cross_encoder :: "string \<Rightarrow> string \<Rightarrow> 's"
  filters :: "base_filter list"
  top_k :: nat

text \<open>
  \<^verbatim>\<open>TextSearchModel\<close>. An embedding is a value of the type \<open>'e\<close> and a tensor of
  embeddings is the list of its rows; a score is a value of the type \<open>'s\<close>, which the
  query takes to be a Python float. The bi-encoder encodes one sentence and the cross-encoder scores one pair:
  encoding or scoring a list is done element by element.
\<close>

record ('e, 's) externals =
  normalize_embeddings :: "'e \<Rightarrow> 'e"
  dot_score :: "'e \<Rightarrow> 'e \<Rightarrow> 's"
  semantic_search :: "('e \<Rightarrow> 'e \<Rightarrow> 's) \<Rightarrow> 'e \<Rightarrow> 'e list \<Rightarrow> nat \<Rightarrow> (nat \<times> 's) list"
  intersection_update :: "nat list \<Rightarrow> nat set \<Rightarrow> nat list"

text \<open>
  What the search takes from its libraries: the normalisation of one embedding, the score
  function, \<^verbatim>\<open>util.semantic_search\<close> for one query (score function, query embedding, corpus
  rows and \<^verbatim>\<open>top_k\<close> to the list of the hits' \<^verbatim>\<open>corpus_id\<close> and \<^verbatim>\<open>score\<close>) and Python's set
  intersection. A set of indices is the list of its elements in the order in which Python
  iterates it: \<^verbatim>\<open>set(range(n))\<close> iterates in ascending order, and the order of an
  intersection is whatever \<open>intersection_update\<close> gives.
\<close>

definition search_contract :: "('e, 's) externals \<Rightarrow> bool" where
  \<comment> \<open>What the library promises of \<^verbatim>\<open>semantic_search\<close>: every hit names a row of the
      corpus it was given, with the score of the query against that row.\<close>
  "search_contract ext =
     (\<forall>sf q rows k. list_all (\<lambda>(i, s). i < length rows \<and> s = sf q (rows ! i))
                       (semantic_search ext sf q rows k))"

definition intersection_contract :: "('e, 's) externals \<Rightarrow> bool" where
  \<comment> \<open>What Python promises of a set intersection: its elements, in some order.\<close>
  "intersection_contract ext =
     (\<forall>xs S. set (intersection_update ext xs S) = set xs \<inter> S)"

subsection \<open>Embedding cache\<close>

record 'e store =
  tensor_files :: "string \<rightharpoonup> 'e list"
  encode_calls :: "string list list"

text \<open>
  The state \<^verbatim>\<open>compute_embeddings\<close> acts on: the tensor saved in each file, and the
  sentence lists the bi-encoder has been called on so far.
\<close>

definition compute_embeddings ::
  "('e, 's) externals \<Rightarrow> (string \<Rightarrow> string) \<Rightarrow> 'e store \<Rightarrow> entry list \<Rightarrow> (string \<Rightarrow> 'e)
     \<Rightarrow> string \<Rightarrow> bool \<Rightarrow> 'e store \<times> (error + 'e list)" where
  \<comment> \<open>\<open>gap\<close> is \<^verbatim>\<open>get_absolute_path\<close> of \<^verbatim>\<open>src/utils/helpers.py\<close>. Loading a file that is
      not there raises.\<close>
  "compute_embeddings ext gap st ents encoder embeddings_file regenerate =
     (if tensor_files st embeddings_file \<noteq> None \<and> \<not> regenerate
      then (case tensor_files st (gap embeddings_file) of
              None \<Rightarrow> (st, Inl FileNotFoundError)
            | Some corpus \<Rightarrow> (st, Inr corpus))
      else
        (let sentences = map compiled ents;
             corpus = map (normalize_embeddings ext) (map encoder sentences)
         in (st\<lparr>tensor_files := (tensor_files st)(embeddings_file \<mapsto> corpus),
                encode_calls := encode_calls st @ [sentences]\<rparr>,
             Inr corpus)))"

subsection \<open>Python floats and \<^verbatim>\<open>list.sort\<close>\<close>

datatype 'v pyfloat = Num 'v | NaN

text \<open>
  A score is a Python float: a number, of the linearly ordered type \<open>'v\<close>, or NaN.
  Python's \<^verbatim>\<open><\<close> and \<^verbatim>\<open><=\<close> are false whenever an operand is NaN.
\<close>

fun float_lt :: "('v::linorder) pyfloat \<Rightarrow> 'v pyfloat \<Rightarrow> bool" where
  "float_lt (Num a) (Num b) = (a < b)"
| "float_lt _ _ = False"

fun float_le :: "('v::linorder) pyfloat \<Rightarrow> 'v pyfloat \<Rightarrow> bool" where
  "float_le (Num a) (Num b) = (a \<le> b)"
| "float_le _ _ = False"

fun number :: "'v pyfloat \<Rightarrow> 'v option" where
  \<comment> \<open>The number a float is, none for NaN.\<close>
  "number (Num v) = Some v"
| "number NaN = None"

text \<open>
  \<^verbatim>\<open>list.sort\<close> as CPython (up to 3.11, \<^verbatim>\<open>listobject.c\<close>) runs it on a list of fewer than
  64 elements, which is what the search sorts (\<^verbatim>\<open>initialize_model\<close> sets \<^verbatim>\<open>top_k\<close> to 15):
  \<^verbatim>\<open>count_run\<close> takes the longest run the list starts with, ascending (no element less
  than the one before it) or strictly descending, and reverses a descending one;
  \<^verbatim>\<open>binarysort\<close> then inserts each later element into the sorted part, at the place a
  binary search finds. The only comparison is \<^verbatim>\<open><\<close>, the parameter \<open>lt\<close>. Nothing here
  needs \<open>lt\<close> to be an order: with NaN among the keys it is not one.
\<close>

fun ascending_run :: "('a \<Rightarrow> 'a \<Rightarrow> bool) \<Rightarrow> 'a \<Rightarrow> 'a list \<Rightarrow> 'a list \<times> 'a list" where
  \<comment> \<open>The elements that continue an ascending run after \<open>prev\<close>, and what follows them.\<close>
  "ascending_run lt prev [] = ([], [])"
| "ascending_run lt prev (x # xs) =
     (if lt x prev then ([], x # xs)
      else (case ascending_run lt x xs of (run, rest) \<Rightarrow> (x # run, rest)))"

fun descending_run :: "('a \<Rightarrow> 'a \<Rightarrow> bool) \<Rightarrow> 'a \<Rightarrow> 'a list \<Rightarrow> 'a list \<times> 'a list" where
  \<comment> \<open>The elements that continue a strictly descending run after \<open>prev\<close>, and what
      follows them.\<close>
  "descending_run lt prev [] = ([], [])"
| "descending_run lt prev (x # xs) =
     (if lt x prev
      then (case descending_run lt x xs of (run, rest) \<Rightarrow> (x # run, rest))
      else ([], x # xs))"

fun count_run :: "('a \<Rightarrow> 'a \<Rightarrow> bool) \<Rightarrow> 'a list \<Rightarrow> 'a list \<times> 'a list" where
  \<comment> \<open>The first run, made ascending, and the rest of the list.\<close>
  "count_run lt [] = ([], [])"
| "count_run lt [x] = ([x], [])"
| "count_run lt (x # y # zs) =
     (if lt y x
      then (case descending_run lt y zs of (run, rest) \<Rightarrow> (rev (x # y # run), rest))
      else (case ascending_run lt y zs of (run, rest) \<Rightarrow> (x # y # run, rest)))"

function bisect :: "('a \<Rightarrow> 'a \<Rightarrow> bool) \<Rightarrow> 'a \<Rightarrow> 'a list \<Rightarrow> nat \<Rightarrow> nat \<Rightarrow> nat" where
  \<comment> \<open>The binary search of \<^verbatim>\<open>binarysort\<close> for the place of \<open>pivot\<close> between \<open>l\<close> and \<open>r\<close>.\<close>
  "bisect lt pivot xs l r =
     (if l < r
      then (let p = l + (r - l) div 2
            in if lt pivot (xs ! p) then bisect lt pivot xs l p
               else bisect lt pivot xs (Suc p) r)
      else l)"
  by pat_completeness auto
termination
  by (relation "measure (\<lambda>(lt, pivot, xs, l, r). r - l)") auto

declare bisect.simps [simp del]

fun binarysort :: "('a \<Rightarrow> 'a \<Rightarrow> bool) \<Rightarrow> 'a list \<Rightarrow> 'a list \<Rightarrow> 'a list" where
  \<comment> \<open>\<open>pre\<close> is the part already in place; each element of the rest is inserted into it.\<close>
  "binarysort lt pre [] = pre"
| "binarysort lt pre (pivot # rest) =
     (let l = bisect lt pivot pre 0 (length pre)
      in binarysort lt (take l pre @ pivot # drop l pre) rest)"

definition list_sort :: "('a \<Rightarrow> 'a \<Rightarrow> bool) \<Rightarrow> 'a list \<Rightarrow> 'a list" where
  "list_sort lt xs = (case count_run lt xs of (run, rest) \<Rightarrow> binarysort lt run rest)"

definition sort_reverse :: "('a \<Rightarrow> ('v::linorder) pyfloat) \<Rightarrow> 'a list \<Rightarrow> 'a list" where
  \<comment> \<open>\<^verbatim>\<open>xs.sort(key=key, reverse=True)\<close>: Python reverses the list, sorts it by \<^verbatim>\<open><\<close> on
      the keys, and reverses it again.\<close>
  "sort_reverse key xs = rev (list_sort (\<lambda>a b. float_lt (key a) (key b)) (rev xs))"

subsection \<open>Query pipeline\<close>

fun apply_filters ::
  "(nat list \<Rightarrow> nat set \<Rightarrow> nat list) \<Rightarrow> base_filter list \<Rightarrow> entry list
     \<Rightarrow> string \<times> nat list \<Rightarrow> string \<times> nat list" where
  \<comment> \<open>Lines 82 to 84: each filter rewrites the query and narrows the included indices.\<close>
  "apply_filters isect [] ents (q, included) = (q, included)"
| "apply_filters isect (f # fs) ents (q, included) =
     (case apply_filter f q ents of
        (q', included_by_filter) \<Rightarrow>
          apply_filters isect fs ents (q', isect included included_by_filter))"

definition filter_step ::
  "('e, 's) externals \<Rightarrow> string \<Rightarrow> ('e, 's) text_search_model \<Rightarrow> string \<times> nat list" where
  \<comment> \<open>Lines 80 to 84: the filtered query and the included entry indices.\<close>
  "filter_step ext raw_query model =
     (let included_entry_indices = [0..<length (entries model)];
          filters_in_query = filter (\<lambda>f. can_filter f raw_query) (filters model)
      in apply_filters (intersection_update ext) filters_in_query (entries model)
           (raw_query, included_entry_indices))"

definition select_entries :: "entry list \<Rightarrow> nat list \<Rightarrow> error + entry list" where
  \<comment> \<open>Line 91: \<^verbatim>\<open>[entries[id] for id in included_entry_indices]\<close>.\<close>
  "select_entries ents ids =
     (if list_all (\<lambda>i. i < length ents) ids then Inr (map (\<lambda>i. ents ! i) ids)
      else Inl IndexError)"

definition index_select :: "'e list \<Rightarrow> nat list \<Rightarrow> error + 'e list" where
  \<comment> \<open>Line 92: \<^verbatim>\<open>torch.index_select(corpus_embeddings, 0, ...)\<close>, the rows at the indices.\<close>
  "index_select rows ids =
     (if list_all (\<lambda>i. i < length rows) ids then Inr (map (\<lambda>i. rows ! i) ids)
      else Inl IndexError)"

definition cross_inp :: "string \<Rightarrow> entry list \<Rightarrow> 's hit list \<Rightarrow> error + (string \<times> string) list" where
  \<comment> \<open>Line 118: the pairs the cross-encoder scores.\<close>
  "cross_inp q ents hits =
     (if list_all (\<lambda>h. corpus_id h < length ents) hits
      then Inr (map (\<lambda>h. (q, compiled (ents ! corpus_id h))) hits)
      else Inl IndexError)"

definition store_cross_scores :: "'s hit list \<Rightarrow> 's list \<Rightarrow> error + 's hit list" where
  \<comment> \<open>Lines 124 and 125: the first \<^verbatim>\<open>len(cross_scores)\<close> hits get their cross-score.\<close>
  "store_cross_scores hits cross_scores =
     (if length cross_scores \<le> length hits
      then Inr (map (\<lambda>(h, s). h\<lparr>cross_score := Some s\<rparr>) (zip hits cross_scores)
                @ drop (length cross_scores) hits)
      else Inl IndexError)"

definition sort_by_cross_score ::
  "('v::linorder) pyfloat hit list \<Rightarrow> error + 'v pyfloat hit list" where
  \<comment> \<open>Line 131: the key \<^verbatim>\<open>x['cross-score']\<close> raises on a hit that has none.\<close>
  "sort_by_cross_score hits =
     (if list_all (\<lambda>h. cross_score h \<noteq> None) hits
      then Inr (sort_reverse (\<lambda>h. the (cross_score h)) hits)
      else Inl KeyError)"

definition rank_hits ::
  "('e, ('v::linorder) pyfloat) text_search_model \<Rightarrow> string \<Rightarrow> entry list \<Rightarrow> bool
     \<Rightarrow> 'v pyfloat hit list \<Rightarrow> error + 'v pyfloat hit list" where
  \<comment> \<open>Lines 115 to 131: score with the cross-encoder when asked to, then order.\<close>
  "rank_hits model q ents rank_results hits =
     (if rank_results
      then (case cross_inp q ents hits of
              Inl err \<Rightarrow> Inl err
            | Inr pairs \<Rightarrow>
                (case store_cross_scores hits (map (\<lambda>(a, b). cross_encoder model a b) pairs) of
                   Inl err \<Rightarrow> Inl err
                 | Inr scored \<Rightarrow> sort_by_cross_score (sort_reverse score scored)))
      else Inr (sort_reverse score hits))"

definition query ::
  "('e, ('v::linorder) pyfloat) externals \<Rightarrow> string \<Rightarrow> ('e, 'v pyfloat) text_search_model \<Rightarrow> bool
     \<Rightarrow> error + ('v pyfloat hit list \<times> entry list)" where
  "query ext raw_query model rank_results =
     (case filter_step ext raw_query model of
        (q, included_entry_indices) \<Rightarrow>
          if included_entry_indices = [] then Inr ([], [])
          else
            (case select_entries (entries model) included_entry_indices of
               Inl err \<Rightarrow> Inl err
             | Inr ents \<Rightarrow>
                 (case index_select (corpus_embeddings model) included_entry_indices of
                    Inl err \<Rightarrow> Inl err
                  | Inr rows \<Rightarrow>
                      if ents = [] then Inr ([], [])
                      else
                        (let question_embedding = normalize_embeddings ext (bi_encoder model q);
                             hits = map (\<lambda>(i, s). \<lparr>corpus_id = i, score = s, cross_score = None\<rparr>)
                                      (semantic_search ext (dot_score ext) question_embedding rows
                                         (top_k model))
                         in (case rank_hits model q ents rank_results hits of
                               Inl err \<Rightarrow> Inl err
                             | Inr ranked \<Rightarrow> Inr (ranked, ents))))))"

subsection \<open>A reference library\<close>

definition dot_search ::
  "('e \<Rightarrow> 'e \<Rightarrow> ('v::linorder) pyfloat) \<Rightarrow> 'e \<Rightarrow> 'e list \<Rightarrow> nat \<Rightarrow> (nat \<times> 'v pyfloat) list" where
  \<comment> \<open>A \<^verbatim>\<open>semantic_search\<close> that scores every row and keeps the \<open>k\<close> best.\<close>
  "dot_search sf q rows k =
     take k (sort_reverse snd (map (\<lambda>i. (i, sf q (rows ! i))) [0..<length rows]))"

definition dot :: "int list \<Rightarrow> int list \<Rightarrow> int pyfloat" where
  "dot a b = Num (sum_list (map (\<lambda>(x, y). x * y) (zip a b)))"

definition ref_externals :: "(int list, int pyfloat) externals" where
  "ref_externals =
     \<lparr>normalize_embeddings = (\<lambda>v. v),
      dot_score = dot,
      semantic_search = dot_search,
      intersection_update = (\<lambda>xs S. filter (\<lambda>i. i \<in> S) xs)\<rparr>"

subsection \<open>Reference points of the properties\<close>

definition entries_of_file :: "string \<Rightarrow> world \<Rightarrow> string \<Rightarrow> string list" where
  \<comment> \<open>The entries that the content of one file splits into.\<close>
  "entries_of_file ees w f =
     (case files w f of None \<Rightarrow> [] | Some content \<Rightarrow> markdown_entries_per_file ees content)"

definition source_tagged_entries :: "string \<Rightarrow> world \<Rightarrow> string list \<Rightarrow> (string \<times> string) list" where
  \<comment> \<open>Every entry of every file, in order, paired with the path of the file it comes from.\<close>
  "source_tagged_entries ees w fs =
     concat (map (\<lambda>f. map (\<lambda>e. (e, f)) (entries_of_file ees w f)) fs)"

definition jsonl_of :: "(string \<times> string) list \<Rightarrow> string" where
  \<comment> \<open>JSON Lines: one record for each pair of an entry and a file, each followed by a
      newline.\<close>
  "jsonl_of tagged = concat (map (\<lambda>(e, f). json_dumps (entry_dict e f) @ [CHR 0x0A]) tagged)"

definition notes_env :: env where
  "notes_env =
     \<lparr>get_absolute_path = (\<lambda>p. if take 1 p = ''/'' then p else ''/notes/'' @ p),
      glob = (\<lambda>pat. if pat = ''/notes/*.md'' then [''/notes/a.md'', ''/notes/b.md''] else []),
      set_iter = sorted_list_of_set,
      empty_escape_sequences = [CHR 0x0A, CHR 0x0D, CHR 0x09, CHR '' ''],
      gzip = (\<lambda>s. ''gzip:'' @ s)\<rparr>"

definition notes_world :: world where
  "notes_world =
     \<lparr>files = [''/notes/a.md'' \<mapsto> ''intro\<newline># A\<newline>body\<newline>## B\<newline>'',
               ''/notes/b.md'' \<mapsto> ''# C''],
      stdout = [],
      opened = []\<rparr>"

definition found_hits ::
  "('e, 's) externals \<Rightarrow> ('e, 's) text_search_model \<Rightarrow> string \<Rightarrow> nat list \<Rightarrow> 's hit list" where
  \<comment> \<open>Line 111: the hits of the search over the rows kept by the filters.\<close>
  "found_hits ext model q ids =
     map (\<lambda>(i, s). \<lparr>corpus_id = i, score = s, cross_score = None\<rparr>)
       (semantic_search ext (dot_score ext) (normalize_embeddings ext (bi_encoder model q))
          (map (\<lambda>i. corpus_embeddings model ! i) ids) (top_k model))"

definition with_cross_scores ::
  "('e, 's) text_search_model \<Rightarrow> string \<Rightarrow> entry list \<Rightarrow> 's hit list \<Rightarrow> 's hit list" where
  \<comment> \<open>The hits, each with the cross-encoder's score of the query against its entry.\<close>
  "with_cross_scores model q ents hits =
     map (\<lambda>h. h\<lparr>cross_score := Some (cross_encoder model q (compiled (ents ! corpus_id h)))\<rparr>) hits"

definition ref_model :: "(int list, int pyfloat) text_search_model" where
  "ref_model =
     \<lparr>entries =
        [\<lparr>compiled = ''# apple'', raw = ''# apple'', entry_file = ''/notes/a.md''\<rparr>,
         \<lparr>compiled = ''# berry'', raw = ''# berry'', entry_file = ''/notes/a.md''\<rparr>,
         \<lparr>compiled = ''# cherry'', raw = ''# cherry'', entry_file = ''/notes/b.md''\<rparr>],
      corpus_embeddings = [[1, 0], [0, 1], [1, 1]],
      bi_encoder = (\<lambda>s. [int (length s), 1]),
      cross_encoder = (\<lambda>q c. if c = ''# cherry'' then Num 0 else Num 1),
      filters =
        [\<lparr>can_filter = (\<lambda>q. take 1 q = ''+''),
          apply_filter = (\<lambda>q es. (drop 1 q, {1, 2, 7}))\<rparr>],
      top_k = 3\<rparr>"

definition nan_model :: "(int list, int pyfloat) text_search_model" where
  \<comment> \<open>The reference model with a cross-encoder that gives NaN for one entry.\<close>
  "nan_model =
     ref_model\<lparr>cross_encoder :=
       (\<lambda>q c. if c = ''# apple'' then NaN else if c = ''# berry'' then Num 2 else Num 1)\<rparr>"

definition ref_store :: "int list store" where
  "ref_store =
     \<lparr>tensor_files = [''/notes/embeddings.pt'' \<mapsto> [[1, 0], [0, 1], [1, 1]]],
      encode_calls = []\<rparr>"

section \<open>Properties of the converter\<close>

subsection \<open>Splitting at headings\<close>

lemma cons_to_first_nonempty: "cons_to_first c xs \<noteq> []"
  by (cases xs) auto

lemma re_split_heading_nonempty: "re_split_heading bol s \<noteq> []"
  by (cases s) (auto simp: cons_to_first_nonempty)

lemma split_lines_nonempty: "split_lines s \<noteq> []"
  by (cases s) (auto simp: cons_to_first_nonempty)

lemma length_cons_to_first: "xs \<noteq> [] \<Longrightarrow> length (cons_to_first c xs) = length xs"
  by (cases xs) auto

lemma tl_cons_to_first: "xs \<noteq> [] \<Longrightarrow> tl (cons_to_first c xs) = tl xs"
  by (cases xs) auto

lemma hd_cons_to_first: "xs \<noteq> [] \<Longrightarrow> hd (cons_to_first c xs) = c # hd xs"
  by (cases xs) auto

lemma first_line_heading: "is_heading (hd (split_lines s)) \<longleftrightarrow> is_heading s"
  by (cases s) (auto simp: is_heading_def hd_cons_to_first split_lines_nonempty)

lemma count_split_lines:
  "length (filter is_heading (split_lines s)) =
     (if is_heading s then 1 else 0) + length (filter is_heading (tl (split_lines s)))"
proof -
  obtain l ls where "split_lines s = l # ls"
    using split_lines_nonempty [of s] by (cases "split_lines s") auto
  moreover from this have "is_heading l \<longleftrightarrow> is_heading s"
    using first_line_heading [of s] by simp
  ultimately show ?thesis by simp
qed

lemma is_heading_Cons [simp]: "is_heading (c # cs) \<longleftrightarrow> c = CHR ''#''"
  by (simp add: is_heading_def)

lemma is_heading_Nil [simp]: "\<not> is_heading []"
  by (simp add: is_heading_def)

lemma length_re_split_heading:
  "length (re_split_heading bol s) =
     Suc (length (filter is_heading (tl (split_lines s))))
       + (if bol \<and> is_heading s then 1 else 0)"
proof (induction s arbitrary: bol)
  case Nil
  show ?case by simp
next
  case (Cons c cs)
  show ?case
  proof (cases "bol \<and> c = CHR ''#''")
    case True
    then show ?thesis
      by (simp add: Cons.IH tl_cons_to_first split_lines_nonempty)
  next
    case False
    show ?thesis
    proof (cases "c = CHR 0x0A")
      case True
      then show ?thesis
        using False
        by (simp add: Cons.IH length_cons_to_first re_split_heading_nonempty
            count_split_lines)
    next
      case nl: False
      then show ?thesis
        using False
        by (auto simp add: Cons.IH length_cons_to_first re_split_heading_nonempty
            tl_cons_to_first split_lines_nonempty)
    qed
  qed
qed

lemma length_re_split_heading_True: "length (re_split_heading True s) = heading_lines s + 1"
  unfolding heading_lines_def
  by (simp add: length_re_split_heading count_split_lines)

text \<open>
  C2, as the code has it. A file whose content has N lines beginning with \<^verbatim>\<open>#\<close> always
  gives N + 1 entries, whether or not there is content before the first heading: the
  piece before the first heading is an entry of its own, \<^verbatim>\<open>#\<close> alone when that piece
  is empty. Every entry starts with \<^verbatim>\<open>#\<close>, and every entry is mapped to the file.
\<close>

theorem extract_markdown_entries_count:
  assumes "files w f = Some content"
  shows "snd (extract_markdown_entries ees w [f]) =
           Inr (markdown_entries_per_file ees content, replicate (heading_lines content + 1) f)
         \<and> length (markdown_entries_per_file ees content) = heading_lines content + 1
         \<and> list_all (\<lambda>e. take 1 e = ''#'') (markdown_entries_per_file ees content)"
proof -
  have len: "length (markdown_entries_per_file ees content) = heading_lines content + 1"
    by (simp add: markdown_entries_per_file_def length_re_split_heading_True)
  have "snd (extract_markdown_entries ees w [f]) =
          Inr (markdown_entries_per_file ees content,
               replicate (length (markdown_entries_per_file ees content)) f)"
    using assms by (simp add: extract_markdown_entries_def Let_def)
  moreover have "list_all (\<lambda>e. take 1 e = ''#'') (markdown_entries_per_file ees content)"
    by (simp add: markdown_entries_per_file_def list_all_iff)
  ultimately show ?thesis using len by simp
qed

theorem extract_markdown_entries_count_witness:
  "files notes_world ''/notes/a.md'' = Some ''intro\<newline># A\<newline>body\<newline>## B\<newline>''
   \<and> snd (extract_markdown_entries (empty_escape_sequences notes_env) notes_world
            [''/notes/a.md'']) =
       Inr ([''#intro'', ''#A\<newline>body'', ''## B''], replicate 3 ''/notes/a.md'')"
proof -
  have h: "files notes_world ''/notes/a.md'' = Some ''intro\<newline># A\<newline>body\<newline>## B\<newline>''"
    by (simp add: notes_world_def)
  have e: "markdown_entries_per_file (empty_escape_sequences notes_env)
             ''intro\<newline># A\<newline>body\<newline>## B\<newline>''
           = [''#intro'', ''#A\<newline>body'', ''## B'']"
    by code_simp
  have n: "heading_lines ''intro\<newline># A\<newline>body\<newline>## B\<newline>'' + 1 = 3"
    by code_simp
  show ?thesis
    using extract_markdown_entries_count [OF h, of "empty_escape_sequences notes_env"] h
    unfolding e n by simp
qed

text \<open>
  C2 as stated fails on a file that is one heading line: N is 1 and nothing precedes the
  heading, yet the file gives two entries, the first of them \<^verbatim>\<open>#\<close> alone.
\<close>

theorem heading_only_file_counterexample:
  "snd (extract_markdown_entries (empty_escape_sequences notes_env) notes_world
          [''/notes/b.md'']) =
     Inr ([''#'', ''#C''], [''/notes/b.md'', ''/notes/b.md''])
   \<and> files notes_world ''/notes/b.md'' = Some ''# C''
   \<and> heading_lines ''# C'' = 1
   \<and> leading_content ''# C'' = []
   \<and> \<not> (length [''#'', ''#C''] = heading_lines ''# C'' + 1 \<longleftrightarrow> leading_content ''# C'' \<noteq> [])"
  by code_simp

subsection \<open>Entries and their files\<close>

lemma entries_of_file_opened [simp]:
  "entries_of_file ees (w\<lparr>opened := x\<rparr>) f = entries_of_file ees w f"
  by (simp add: entries_of_file_def)

lemma extract_loop_Inr:
  "extract_loop ees fs w (es0, m0) = (w', Inr (es, m)) \<Longrightarrow>
     es = es0 @ concat (map (entries_of_file ees w) fs) \<and>
     m = m0 @ concat (map (\<lambda>f. replicate (length (entries_of_file ees w f)) f) fs) \<and>
     w' = w\<lparr>opened := opened w @ fs\<rparr> \<and>
     list_all (\<lambda>f. files w f \<noteq> None) fs"
proof (induction fs arbitrary: w es0 m0)
  case Nil
  then show ?case by simp
next
  case (Cons f fs)
  from Cons.prems obtain c where c: "files w f = Some c"
    by (cases "files w f") (auto simp: Let_def)
  let ?w = "w\<lparr>opened := opened w @ [f]\<rparr>"
  let ?per = "markdown_entries_per_file ees c"
  from Cons.prems c have
    "extract_loop ees fs ?w (es0 @ ?per, m0 @ replicate (length ?per) f) = (w', Inr (es, m))"
    by (simp add: Let_def)
  from Cons.IH [OF this] c show ?case
    by (simp add: entries_of_file_def)
qed

lemma extract_loop_total:
  "list_all (\<lambda>f. files w f \<noteq> None) fs \<Longrightarrow>
     \<exists>es m. extract_loop ees fs w (es0, m0) = (w\<lparr>opened := opened w @ fs\<rparr>, Inr (es, m))"
proof (induction fs arbitrary: w es0 m0)
  case Nil
  then show ?case by simp
next
  case (Cons f fs)
  then obtain c where c: "files w f = Some c" by auto
  let ?w = "w\<lparr>opened := opened w @ [f]\<rparr>"
  from Cons.prems have "list_all (\<lambda>f. files ?w f \<noteq> None) fs" by simp
  from Cons.IH [OF this] c show ?case
    by (simp add: Let_def)
qed

lemma extract_loop_files:
  "extract_loop ees fs w acc = (w', r) \<Longrightarrow> files w' = files w \<and> stdout w' = stdout w"
proof (induction fs arbitrary: w acc)
  case Nil
  then show ?case by (cases acc) auto
next
  case (Cons f fs)
  obtain es0 m0 where acc: "acc = (es0, m0)" by (cases acc)
  show ?case
  proof (cases "files w f")
    case None
    with Cons.prems acc show ?thesis by (auto simp: Let_def)
  next
    case (Some c)
    with Cons.prems acc Cons.IH show ?thesis by (fastforce simp: Let_def)
  qed
qed

lemma zip_replicate_same: "zip xs (replicate (length xs) f) = map (\<lambda>e. (e, f)) xs"
  by (induction xs) auto

lemma zip_tagged:
  "zip (concat (map g fs)) (concat (map (\<lambda>f. replicate (length (g f)) f) fs)) =
     concat (map (\<lambda>f. map (\<lambda>e. (e, f)) (g f)) fs)"
  by (induction fs) (auto simp: zip_replicate_same)

lemma length_tagged:
  "length (concat (map (\<lambda>f. replicate (length (g f)) f) fs)) = length (concat (map g fs))"
  by (induction fs) auto

lemma extract_markdown_entries_Inr:
  assumes "extract_markdown_entries ees w fs = (w', Inr (es, m))"
  shows "zip es m = source_tagged_entries ees w fs" and "length m = length es"
    and "w' = w\<lparr>opened := opened w @ fs\<rparr>"
  using extract_loop_Inr [of ees fs w "[]" "[]" w' es m] assms
  by (simp_all add: extract_markdown_entries_def source_tagged_entries_def zip_tagged length_tagged)

subsection \<open>Records and lines\<close>

lemma convert_loop_zip:
  "entry_id + length es \<le> length m \<Longrightarrow>
     convert_loop m entry_id es jsonl = Inr (jsonl @ jsonl_of (zip es (drop entry_id m)))"
proof (induction es arbitrary: entry_id jsonl)
  case Nil
  then show ?case by (simp add: jsonl_of_def)
next
  case (Cons e es)
  then have lt: "entry_id < length m" by simp
  from Cons.prems have "Suc entry_id + length es \<le> length m" by simp
  from Cons.IH [OF this] lt show ?case
    by (simp add: jsonl_of_def Cons_nth_drop_Suc [symmetric])
qed

lemma convert_markdown_entries_to_jsonl_zip:
  "length es \<le> length m \<Longrightarrow>
     convert_markdown_entries_to_jsonl es m = Inr (jsonl_of (zip es m))"
  using convert_loop_zip [of 0 es m "[]"] by (simp add: convert_markdown_entries_to_jsonl_def)

lemma hex_digit_not_newline: "hex_digit n \<noteq> CHR 0x0A"
proof -
  have "hex_digit n \<in> set ''0123456789abcdef''"
    unfolding hex_digit_def by (rule nth_mem) simp
  then show ?thesis by auto
qed

lemma json_escape_char_no_newline: "CHR 0x0A \<notin> set (json_escape_char c)"
  using hex_digit_not_newline [of "of_char c"] hex_digit_not_newline [of "of_char c div 16"]
  by (auto simp: json_escape_char_def)

lemma json_string_no_newline: "CHR 0x0A \<notin> set (json_string s)"
  by (auto simp: json_string_def json_escape_char_no_newline)

lemma json_items_no_newline: "CHR 0x0A \<notin> set (json_items d)"
  by (induction d rule: json_items.induct) (auto simp: json_string_no_newline)

lemma json_dumps_no_newline: "CHR 0x0A \<notin> set (json_dumps d)"
  by (auto simp: json_dumps_def json_items_no_newline)

lemma split_lines_line:
  "CHR 0x0A \<notin> set l \<Longrightarrow> split_lines (l @ CHR 0x0A # rest) = l # split_lines rest"
  by (induction l) auto

lemma split_lines_jsonl:
  "split_lines (jsonl_of tagged) = map (\<lambda>(e, f). json_dumps (entry_dict e f)) tagged @ [[]]"
proof (induction tagged)
  case Nil
  show ?case by (simp add: jsonl_of_def)
next
  case (Cons p tagged)
  obtain e f where p: "p = (e, f)" by (cases p)
  have "jsonl_of (p # tagged) = json_dumps (entry_dict e f) @ CHR 0x0A # jsonl_of tagged"
    by (simp add: jsonl_of_def p)
  then show ?case
    using Cons.IH by (simp add: split_lines_line json_dumps_no_newline p)
qed

text \<open>
  C6. When the extraction succeeds, the entries paired with the file map are the entries
  of each file paired with the path of that file, and the conversion emits one record for
  each such pair, whose \<^verbatim>\<open>file\<close> field is that path.
\<close>

theorem file_field_is_source_path:
  assumes "snd (extract_markdown_entries ees w fs) = Inr (es, m)"
  shows "zip es m = source_tagged_entries ees w fs
         \<and> length m = length es
         \<and> convert_markdown_entries_to_jsonl es m =
             Inr (jsonl_of (source_tagged_entries ees w fs))
         \<and> list_all (\<lambda>(e, f). map_of (entry_dict e f) ''file'' = Some f)
             (source_tagged_entries ees w fs)"
proof -
  obtain w' where ex: "extract_markdown_entries ees w fs = (w', Inr (es, m))"
    using assms by (cases "extract_markdown_entries ees w fs") auto
  have z: "zip es m = source_tagged_entries ees w fs" and l: "length m = length es"
    using extract_markdown_entries_Inr [OF ex] by simp_all
  have "convert_markdown_entries_to_jsonl es m = Inr (jsonl_of (zip es m))"
    using l by (simp add: convert_markdown_entries_to_jsonl_zip)
  moreover have "list_all (\<lambda>(e, f). map_of (entry_dict e f) ''file'' = Some f)
                   (source_tagged_entries ees w fs)"
    by (simp add: list_all_iff entry_dict_def split_beta)
  ultimately show ?thesis using z l by simp
qed

theorem file_field_is_source_path_witness:
  "snd (extract_markdown_entries (empty_escape_sequences notes_env) notes_world
          [''/notes/b.md'', ''/notes/a.md'']) =
     Inr ([''#'', ''#C'', ''#intro'', ''#A\<newline>body'', ''## B''],
          [''/notes/b.md'', ''/notes/b.md'', ''/notes/a.md'', ''/notes/a.md'', ''/notes/a.md''])
   \<and> zip [''#'', ''#C'', ''#intro'', ''#A\<newline>body'', ''## B'']
         [''/notes/b.md'', ''/notes/b.md'', ''/notes/a.md'', ''/notes/a.md'', ''/notes/a.md''] =
       source_tagged_entries (empty_escape_sequences notes_env) notes_world
         [''/notes/b.md'', ''/notes/a.md'']
   \<and> convert_markdown_entries_to_jsonl [''#'', ''#C'', ''#intro'', ''#A\<newline>body'', ''## B'']
         [''/notes/b.md'', ''/notes/b.md'', ''/notes/a.md'', ''/notes/a.md'', ''/notes/a.md''] =
       Inr (jsonl_of (source_tagged_entries (empty_escape_sequences notes_env) notes_world
         [''/notes/b.md'', ''/notes/a.md'']))"
proof -
  have h: "snd (extract_markdown_entries (empty_escape_sequences notes_env) notes_world
          [''/notes/b.md'', ''/notes/a.md'']) =
     Inr ([''#'', ''#C'', ''#intro'', ''#A\<newline>body'', ''## B''],
          [''/notes/b.md'', ''/notes/b.md'', ''/notes/a.md'', ''/notes/a.md'', ''/notes/a.md''])"
    by code_simp
  show ?thesis
    using file_field_is_source_path [OF h] h by simp
qed

text \<open>
  C7. For an entry list with a file map of the same length, the conversion does not
  raise and emits the records of the entries in entry order, each followed by a newline.
  No record has a newline inside, so the lines of the output are these records, one for
  each entry; every record has the keys \<^verbatim>\<open>compiled\<close>, \<^verbatim>\<open>raw\<close> and \<^verbatim>\<open>file\<close>, no other.
\<close>

theorem one_record_per_entry:
  assumes "length m = length es"
  shows "convert_markdown_entries_to_jsonl es m = Inr (jsonl_of (zip es m))
         \<and> split_lines (jsonl_of (zip es m)) =
             map (\<lambda>(e, f). json_dumps (entry_dict e f)) (zip es m) @ [[]]
         \<and> map fst (zip es m) = es
         \<and> list_all (\<lambda>(e, f). map fst (entry_dict e f) = [''compiled'', ''raw'', ''file''])
             (zip es m)"
proof -
  have "convert_markdown_entries_to_jsonl es m = Inr (jsonl_of (zip es m))"
    using assms by (simp add: convert_markdown_entries_to_jsonl_zip)
  moreover have "map fst (zip es m) = es"
    using assms by simp
  moreover have "list_all (\<lambda>(e, f). map fst (entry_dict e f) = [''compiled'', ''raw'', ''file''])
                   (zip es m)"
    by (simp add: list_all_iff entry_dict_def split_beta)
  ultimately show ?thesis by (simp add: split_lines_jsonl)
qed

theorem one_record_per_entry_witness:
  "length [''/notes/b.md'', ''/notes/b.md''] = length [''#'', ''#C'']
   \<and> convert_markdown_entries_to_jsonl [''#'', ''#C''] [''/notes/b.md'', ''/notes/b.md''] =
       Inr (''{\"compiled\": \"#\", \"raw\": \"#\", \"file\": \"/notes/b.md\"}\<newline>''
            @ ''{\"compiled\": \"#C\", \"raw\": \"#C\", \"file\": \"/notes/b.md\"}\<newline>'')"
proof -
  have h: "length [''/notes/b.md'', ''/notes/b.md''] = length [''#'', ''#C'']" by simp
  have j: "jsonl_of (zip [''#'', ''#C''] [''/notes/b.md'', ''/notes/b.md'']) =
       ''{\"compiled\": \"#\", \"raw\": \"#\", \"file\": \"/notes/b.md\"}\<newline>''
            @ ''{\"compiled\": \"#C\", \"raw\": \"#C\", \"file\": \"/notes/b.md\"}\<newline>''"
    by code_simp
  show ?thesis
    using one_record_per_entry [OF h] unfolding j by simp
qed

subsection \<open>The converter as a whole\<close>

lemma extract_markdown_entries_files:
  "files (fst (extract_markdown_entries ees w fs)) = files w"
  using extract_loop_files [of ees fs w "([], [])"]
  by (cases "extract_loop ees fs w ([], [])") (simp add: extract_markdown_entries_def)

text \<open>
  C8. With both the file list and the filter none or empty, the converter prints its
  message and exits with status 1; no file has been opened and no file written.
\<close>

theorem missing_input_exits:
  assumes "is_none_or_empty markdown_files" and "is_none_or_empty markdown_file_filter"
  shows "markdown_to_jsonl e w markdown_files markdown_file_filter output_file =
           (w\<lparr>stdout := stdout w @ [required_message]\<rparr>, Inl (SystemExit 1))
         \<and> files (fst (markdown_to_jsonl e w markdown_files markdown_file_filter output_file)) =
             files w
         \<and> opened (fst (markdown_to_jsonl e w markdown_files markdown_file_filter output_file)) =
             opened w"
  using assms by (simp add: markdown_to_jsonl_def)

theorem missing_input_exits_witness:
  "is_none_or_empty (Some ([] :: string list)) \<and> is_none_or_empty (None :: string option)
   \<and> snd (markdown_to_jsonl notes_env notes_world (Some []) None ''/notes/out.jsonl'') =
       Inl (SystemExit 1)
   \<and> stdout (fst (markdown_to_jsonl notes_env notes_world (Some []) None ''/notes/out.jsonl'')) =
       [required_message]
   \<and> files (fst (markdown_to_jsonl notes_env notes_world (Some []) None ''/notes/out.jsonl'')) =
       files notes_world
   \<and> opened (fst (markdown_to_jsonl notes_env notes_world (Some []) None ''/notes/out.jsonl'')) = []"
proof -
  have a: "is_none_or_empty (Some ([] :: string list))" by (simp add: is_none_or_empty_def)
  have b: "is_none_or_empty (None :: string option)" by (simp add: is_none_or_empty_def)
  show ?thesis
    using missing_input_exits [OF a b, of notes_env notes_world "''/notes/out.jsonl''"] a b
    by (simp add: notes_world_def)
qed

text \<open>
  C10. With an output file whose suffix is neither \<^verbatim>\<open>.gz\<close> nor \<^verbatim>\<open>.jsonl\<close>, the converter
  writes no file, whatever else happens; and when an input is given and the extraction
  succeeds, it returns the extracted entries without raising.
\<close>

theorem unsupported_suffix_ignored:
  assumes "path_suffix output_file \<noteq> ''.gz''" and "path_suffix output_file \<noteq> ''.jsonl''"
  shows "files (fst (markdown_to_jsonl e w markdown_files markdown_file_filter output_file)) =
           files w
         \<and> (\<forall>es m. \<not> (is_none_or_empty markdown_files \<and> is_none_or_empty markdown_file_filter)
               \<longrightarrow> snd (extract_markdown_entries (empty_escape_sequences e) w
                         (set_iter e (get_markdown_files e markdown_files markdown_file_filter)))
                     = Inr (es, m)
               \<longrightarrow> snd (markdown_to_jsonl e w markdown_files markdown_file_filter output_file)
                     = Inr es)"
proof (cases "is_none_or_empty markdown_files \<and> is_none_or_empty markdown_file_filter")
  case True
  then show ?thesis by (simp add: markdown_to_jsonl_def)
next
  case False
  let ?fs = "set_iter e (get_markdown_files e markdown_files markdown_file_filter)"
  let ?x = "extract_markdown_entries (empty_escape_sequences e) w ?fs"
  obtain w1 r where x: "?x = (w1, r)" by (cases ?x)
  have f1: "files w1 = files w"
    using extract_markdown_entries_files [of "empty_escape_sequences e" w ?fs] x by simp
  show ?thesis
  proof (cases r)
    case (Inl err)
    with False x f1 show ?thesis by (simp add: markdown_to_jsonl_def Let_def)
  next
    case (Inr p)
    obtain es m where p: "p = (es, m)" by (cases p)
    have "length m = length es"
      using extract_markdown_entries_Inr(2) [of "empty_escape_sequences e" w ?fs w1 es m] x Inr p
      by simp
    then have "convert_markdown_entries_to_jsonl es m = Inr (jsonl_of (zip es m))"
      by (simp add: convert_markdown_entries_to_jsonl_zip)
    with False x f1 Inr p assms show ?thesis
      by (simp add: markdown_to_jsonl_def Let_def)
  qed
qed

theorem unsupported_suffix_ignored_witness:
  "path_suffix ''/notes/out.txt'' \<noteq> ''.gz'' \<and> path_suffix ''/notes/out.txt'' \<noteq> ''.jsonl''
   \<and> \<not> (is_none_or_empty (Some [''b.md'']) \<and> is_none_or_empty (Some ''/notes/*.md''))
   \<and> snd (extract_markdown_entries (empty_escape_sequences notes_env) notes_world
            (set_iter notes_env
               (get_markdown_files notes_env (Some [''b.md'']) (Some ''/notes/*.md'')))) =
       Inr ([''#intro'', ''#A\<newline>body'', ''## B'', ''#'', ''#C''],
            [''/notes/a.md'', ''/notes/a.md'', ''/notes/a.md'', ''/notes/b.md'', ''/notes/b.md''])
   \<and> snd (markdown_to_jsonl notes_env notes_world (Some [''b.md'']) (Some ''/notes/*.md'')
            ''/notes/out.txt'') =
       Inr [''#intro'', ''#A\<newline>body'', ''## B'', ''#'', ''#C'']
   \<and> files (fst (markdown_to_jsonl notes_env notes_world (Some [''b.md'']) (Some ''/notes/*.md'')
            ''/notes/out.txt'')) = files notes_world"
proof -
  have a: "path_suffix ''/notes/out.txt'' \<noteq> ''.gz''" by code_simp
  have b: "path_suffix ''/notes/out.txt'' \<noteq> ''.jsonl''" by code_simp
  have c: "\<not> (is_none_or_empty (Some [''b.md'']) \<and> is_none_or_empty (Some ''/notes/*.md''))"
    by (simp add: is_none_or_empty_def)
  have d: "snd (extract_markdown_entries (empty_escape_sequences notes_env) notes_world
            (set_iter notes_env
               (get_markdown_files notes_env (Some [''b.md'']) (Some ''/notes/*.md'')))) =
       Inr ([''#intro'', ''#A\<newline>body'', ''## B'', ''#'', ''#C''],
            [''/notes/a.md'', ''/notes/a.md'', ''/notes/a.md'', ''/notes/b.md'', ''/notes/b.md''])"
    by code_simp
  show ?thesis
    using unsupported_suffix_ignored [OF a b, of notes_env notes_world "Some [''b.md'']"
        "Some ''/notes/*.md''"] a b c d
    by blast
qed

section \<open>Properties of the search\<close>

subsection \<open>Sorting in descending order\<close>

lemma ascending_run_append: "ascending_run lt prev xs = (run, rest) \<Longrightarrow> run @ rest = xs"
  by (induction xs arbitrary: prev run rest) (auto split: if_splits prod.splits)

lemma descending_run_append: "descending_run lt prev xs = (run, rest) \<Longrightarrow> run @ rest = xs"
  by (induction xs arbitrary: prev run rest) (auto split: if_splits prod.splits)

lemma count_run_set: "count_run lt xs = (run, rest) \<Longrightarrow> set run \<union> set rest = set xs"
proof (induction lt xs rule: count_run.induct)
  case (3 lt x y zs)
  show ?case
  proof (cases "lt y x")
    case True
    with 3 obtain r where "descending_run lt y zs = (r, rest)" "run = rev (x # y # r)"
      by (auto split: prod.splits)
    then show ?thesis using descending_run_append [of lt y zs r rest] by auto
  next
    case False
    with 3 obtain r where "ascending_run lt y zs = (r, rest)" "run = x # y # r"
      by (auto split: prod.splits)
    then show ?thesis using ascending_run_append [of lt y zs r rest] by auto
  qed
qed auto

lemma set_insert_at: "set (take l xs @ p # drop l xs) = insert p (set xs)"
proof -
  have "set (take l xs) \<union> set (drop l xs) = set xs"
    by (metis append_take_drop_id set_append)
  then show ?thesis by auto
qed

lemma set_binarysort: "set (binarysort lt pre rest) = set pre \<union> set rest"
proof (induction rest arbitrary: pre)
  case Nil
  show ?case by simp
next
  case (Cons p rest)
  let ?l = "bisect lt p pre 0 (length pre)"
  have "binarysort lt pre (p # rest) = binarysort lt (take ?l pre @ p # drop ?l pre) rest"
    by (simp add: Let_def)
  then have "set (binarysort lt pre (p # rest)) = set (take ?l pre @ p # drop ?l pre) \<union> set rest"
    by (simp only: Cons.IH)
  also have "\<dots> = insert p (set pre) \<union> set rest"
    by (simp only: set_insert_at)
  finally show ?case by simp
qed

lemma set_list_sort [simp]: "set (list_sort lt xs) = set xs"
proof -
  obtain run rest where c: "count_run lt xs = (run, rest)" by (cases "count_run lt xs")
  then show ?thesis
    using count_run_set [OF c] by (simp add: list_sort_def set_binarysort)
qed

lemma set_sort_reverse [simp]: "set (sort_reverse key xs) = set xs"
  by (simp add: sort_reverse_def)

lemma ascending_run_sorted:
  assumes "\<And>a b. a \<in> A \<Longrightarrow> b \<in> A \<Longrightarrow> lt a b \<longleftrightarrow> k a < (k b :: 'k::linorder)"
  shows "insert prev (set xs) \<subseteq> A \<Longrightarrow> ascending_run lt prev xs = (run, rest) \<Longrightarrow>
           sorted (map k (prev # run))"
proof (induction xs arbitrary: prev run rest)
  case Nil
  then show ?case by simp
next
  case (Cons x xs)
  show ?case
  proof (cases "lt x prev")
    case True
    with Cons.prems show ?thesis by simp
  next
    case False
    then have le: "k prev \<le> k x" using assms [of x prev] Cons.prems(1) by auto
    from False Cons.prems(2) obtain r where r: "ascending_run lt x xs = (r, rest)" "run = x # r"
      by (auto split: prod.splits)
    have "sorted (map k (x # r))" using Cons.IH [OF _ r(1)] Cons.prems(1) by auto
    with le r show ?thesis by (auto intro: order_trans)
  qed
qed

lemma descending_run_strict:
  assumes "\<And>a b. a \<in> A \<Longrightarrow> b \<in> A \<Longrightarrow> lt a b \<longleftrightarrow> k a < (k b :: 'k::linorder)"
  shows "insert prev (set xs) \<subseteq> A \<Longrightarrow> descending_run lt prev xs = (run, rest) \<Longrightarrow>
           sorted_wrt (\<lambda>a b. k b < k a) (prev # run)"
proof (induction xs arbitrary: prev run rest)
  case Nil
  then show ?case by simp
next
  case (Cons x xs)
  show ?case
  proof (cases "lt x prev")
    case False
    with Cons.prems show ?thesis by simp
  next
    case True
    then have less: "k x < k prev" using assms [of x prev] Cons.prems(1) by auto
    from True Cons.prems(2) obtain r where r: "descending_run lt x xs = (r, rest)" "run = x # r"
      by (auto split: prod.splits)
    have "sorted_wrt (\<lambda>a b. k b < k a) (x # r)" using Cons.IH [OF _ r(1)] Cons.prems(1) by auto
    with less r show ?thesis by auto
  qed
qed

lemma filter_rev_strict:
  "sorted_wrt (\<lambda>a b. k b < (k a :: 'k::linorder)) xs \<Longrightarrow>
     filter (\<lambda>x. k x = c) (rev xs) = filter (\<lambda>x. k x = c) xs"
proof (induction xs)
  case Nil
  show ?case by simp
next
  case (Cons x xs)
  then have ih: "filter (\<lambda>x. k x = c) (rev xs) = filter (\<lambda>x. k x = c) xs" by simp
  show ?case
  proof (cases "k x = c")
    case True
    with Cons.prems have "filter (\<lambda>x. k x = c) xs = []"
      by (auto simp: filter_empty_conv)
    with ih True show ?thesis by simp
  next
    case False
    with ih show ?thesis by simp
  qed
qed

lemma sorted_rev_strict:
  "sorted_wrt (\<lambda>a b. k b < (k a :: 'k::linorder)) xs \<Longrightarrow> sorted (map k (rev xs))"
proof -
  assume "sorted_wrt (\<lambda>a b. k b < k a) xs"
  then have "sorted_wrt (\<lambda>a b. k a < k b) (rev xs)" by (simp add: sorted_wrt_rev)
  then have "sorted_wrt (\<lambda>a b. k a \<le> k b) (rev xs)"
    by (rule sorted_wrt_mono_rel [rotated]) auto
  then show ?thesis by (simp add: sorted_map)
qed

lemma count_run_sorted:
  assumes "\<And>a b. a \<in> A \<Longrightarrow> b \<in> A \<Longrightarrow> lt a b \<longleftrightarrow> k a < (k b :: 'k::linorder)"
    and "set xs \<subseteq> A" and "count_run lt xs = (run, rest)"
  shows "sorted (map k run)"
    and "filter (\<lambda>x. k x = c) (run @ rest) = filter (\<lambda>x. k x = c) xs"
proof -
  have "sorted (map k run) \<and> filter (\<lambda>x. k x = c) (run @ rest) = filter (\<lambda>x. k x = c) xs"
  proof (cases xs)
    case Nil
    with assms(3) show ?thesis by simp
  next
    case (Cons x ys)
    show ?thesis
    proof (cases ys)
      case Nil
      with Cons assms(3) show ?thesis by auto
    next
      case (Cons y zs)
      note xs = \<open>xs = x # ys\<close> Cons
      show ?thesis
      proof (cases "lt y x")
        case True
        with xs assms(3) obtain r where
          r: "descending_run lt y zs = (r, rest)" and run: "run = rev (x # y # r)"
          by (auto split: prod.splits)
        have app: "r @ rest = zs" using r by (rule descending_run_append)
        have "k y < k x" using True assms(1) [of y x] assms(2) xs by auto
        moreover have "sorted_wrt (\<lambda>a b. k b < k a) (y # r)"
          using descending_run_strict [of A lt k y zs r rest] assms(1,2) r xs by auto
        ultimately have strict: "sorted_wrt (\<lambda>a b. k b < k a) (x # y # r)" by auto
        have "filter (\<lambda>x. k x = c) (rev (x # y # r)) = filter (\<lambda>x. k x = c) (x # y # r)"
          using strict by (rule filter_rev_strict)
        then have "filter (\<lambda>x. k x = c) (run @ rest) = filter (\<lambda>x. k x = c) xs"
          using app xs run by (simp del: rev.simps filter.simps add: filter_append [symmetric])
        moreover have "sorted (map k run)"
          unfolding run using strict by (rule sorted_rev_strict)
        ultimately show ?thesis by simp
      next
        case False
        with xs assms(3) obtain r where
          r: "ascending_run lt y zs = (r, rest)" and run: "run = x # y # r"
          by (auto split: prod.splits)
        have app: "r @ rest = zs" using r by (rule ascending_run_append)
        have "k x \<le> k y" using False assms(1) [of y x] assms(2) xs by auto
        moreover have "sorted (map k (y # r))"
          using ascending_run_sorted [of A lt k y zs r rest] assms(1,2) r xs by auto
        ultimately have "sorted (map k run)" using run by (auto intro: order_trans)
        with app xs run show ?thesis by auto
      qed
    qed
  qed
  then show "sorted (map k run)"
    and "filter (\<lambda>x. k x = c) (run @ rest) = filter (\<lambda>x. k x = c) xs"
    by simp_all
qed

lemma bisect_splits:
  assumes "\<And>a b. a \<in> A \<Longrightarrow> b \<in> A \<Longrightarrow> lt a b \<longleftrightarrow> k a < (k b :: 'k::linorder)"
    and "insert pivot (set xs) \<subseteq> A" and "sorted (map k xs)"
  shows "l \<le> r \<Longrightarrow> r \<le> length xs \<Longrightarrow>
         (\<forall>i<l. k (xs ! i) \<le> k pivot) \<Longrightarrow>
         (\<forall>i. r \<le> i \<and> i < length xs \<longrightarrow> k pivot < k (xs ! i)) \<Longrightarrow>
         (\<forall>i<bisect lt pivot xs l r. k (xs ! i) \<le> k pivot) \<and>
         (\<forall>i. bisect lt pivot xs l r \<le> i \<and> i < length xs \<longrightarrow> k pivot < k (xs ! i))"
  using assms
proof (induction lt pivot xs l r rule: bisect.induct)
  case (1 lt pivot xs l r)
  note ord = "1.prems"(5) and sub = "1.prems"(6) and srt = "1.prems"(7)
  have mono: "k (xs ! i) \<le> k (xs ! j)" if "i \<le> j" "j < length xs" for i j
    using sorted_nth_mono [OF srt, of i j] that by simp
  show ?case
  proof (cases "l < r")
    case False
    with "1.prems" show ?thesis by (simp add: bisect.simps)
  next
    case True
    let ?p = "l + (r - l) div 2"
    have p: "l \<le> ?p" "?p < r" using True by auto
    then have pl: "?p < length xs" using "1.prems"(2) by simp
    then have mem: "xs ! ?p \<in> A" using sub by auto
    show ?thesis
    proof (cases "lt pivot (xs ! ?p)")
      case lt: True
      then have "k pivot < k (xs ! ?p)" using ord [of pivot "xs ! ?p"] mem sub by auto
      then have hi: "\<forall>i. ?p \<le> i \<and> i < length xs \<longrightarrow> k pivot < k (xs ! i)"
        using mono by (meson less_le_trans)
      have "?p \<le> length xs" using pl by simp
      from "1.IH"(1) [OF True refl lt p(1) this "1.prems"(3) hi ord sub srt]
      show ?thesis using True lt by (subst (1 2) bisect.simps) (simp add: Let_def)
    next
      case nlt: False
      then have "k (xs ! ?p) \<le> k pivot" using ord [of pivot "xs ! ?p"] mem sub by auto
      then have lo: "\<forall>i<Suc ?p. k (xs ! i) \<le> k pivot"
        using mono pl by (meson less_Suc_eq_le order_trans)
      have "Suc ?p \<le> r" using p by simp
      from "1.IH"(2) [OF True refl nlt this "1.prems"(2) lo "1.prems"(4) ord sub srt]
      show ?thesis using True nlt by (subst (1 2) bisect.simps) (simp add: Let_def)
    qed
  qed
qed

lemma insert_at_sorted:
  assumes "sorted (map k xs)"
    and "\<forall>i<j. k (xs ! i) \<le> (k pivot :: 'k::linorder)"
    and "\<forall>i. j \<le> i \<and> i < length xs \<longrightarrow> k pivot < k (xs ! i)"
  shows "sorted (map k (take j xs @ pivot # drop j xs))"
    and "filter (\<lambda>x. k x = c) (take j xs @ pivot # drop j xs) =
           filter (\<lambda>x. k x = c) (xs @ [pivot])"
proof -
  have lo: "k x \<le> k pivot" if "x \<in> set (take j xs)" for x
  proof -
    from that obtain i where "i < length (take j xs)" "x = take j xs ! i"
      by (auto simp: in_set_conv_nth)
    then show ?thesis using assms(2) by simp
  qed
  have hi: "k pivot < k x" if "x \<in> set (drop j xs)" for x
  proof -
    from that obtain i where "i < length (drop j xs)" "x = drop j xs ! i"
      by (auto simp: in_set_conv_nth)
    then show ?thesis using assms(3) by simp
  qed
  have st: "sorted (map k (take j xs))" and sd: "sorted (map k (drop j xs))"
    using assms(1) by (simp_all add: take_map [symmetric] drop_map [symmetric])
  have "k x \<le> k y" if "x \<in> set (take j xs)" "y \<in> set (drop j xs)" for x y
    using lo [OF that(1)] hi [OF that(2)] by simp
  with st sd lo hi show "sorted (map k (take j xs @ pivot # drop j xs))"
    by (auto simp: sorted_append less_imp_le)
  have split: "filter (\<lambda>x. k x = c) xs =
                 filter (\<lambda>x. k x = c) (take j xs) @ filter (\<lambda>x. k x = c) (drop j xs)"
    by (metis append_take_drop_id filter_append)
  show "filter (\<lambda>x. k x = c) (take j xs @ pivot # drop j xs) =
          filter (\<lambda>x. k x = c) (xs @ [pivot])"
  proof (cases "k pivot = c")
    case True
    then have "filter (\<lambda>x. k x = c) (drop j xs) = []"
      using hi by (force simp: filter_empty_conv)
    with True split show ?thesis by simp
  next
    case False
    with split show ?thesis by simp
  qed
qed

lemma binarysort_sorted:
  assumes "\<And>a b. a \<in> A \<Longrightarrow> b \<in> A \<Longrightarrow> lt a b \<longleftrightarrow> k a < (k b :: 'k::linorder)"
  shows "set pre \<union> set rest \<subseteq> A \<Longrightarrow> sorted (map k pre) \<Longrightarrow>
           sorted (map k (binarysort lt pre rest)) \<and>
           filter (\<lambda>x. k x = c) (binarysort lt pre rest) = filter (\<lambda>x. k x = c) (pre @ rest)"
proof (induction rest arbitrary: pre)
  case Nil
  then show ?case by simp
next
  case (Cons p rest)
  let ?j = "bisect lt p pre 0 (length pre)"
  let ?pre = "take ?j pre @ p # drop ?j pre"
  have sp: "(\<forall>i<?j. k (pre ! i) \<le> k p) \<and> (\<forall>i. ?j \<le> i \<and> i < length pre \<longrightarrow> k p < k (pre ! i))"
    by (rule bisect_splits [where A = A]) (use assms Cons.prems in auto)
  have s: "sorted (map k ?pre)"
    and f: "filter (\<lambda>x. k x = c) ?pre = filter (\<lambda>x. k x = c) (pre @ [p])"
    using insert_at_sorted [OF Cons.prems(2), of ?j p] sp by blast+
  have "set ?pre \<union> set rest \<subseteq> A"
    using Cons.prems(1) by (simp only: set_insert_at) auto
  from Cons.IH [OF this s] have
    "sorted (map k (binarysort lt ?pre rest))"
    "filter (\<lambda>x. k x = c) (binarysort lt ?pre rest) = filter (\<lambda>x. k x = c) (?pre @ rest)"
    by simp_all
  moreover have "filter (\<lambda>x. k x = c) (?pre @ rest) = filter (\<lambda>x. k x = c) (pre @ p # rest)"
    using f by (simp only: filter_append) simp
  ultimately show ?case by (simp add: Let_def)
qed

lemma list_sort_sorted:
  assumes "\<And>a b. a \<in> set xs \<Longrightarrow> b \<in> set xs \<Longrightarrow> lt a b \<longleftrightarrow> k a < (k b :: 'k::linorder)"
  shows "sorted (map k (list_sort lt xs))"
    and "filter (\<lambda>x. k x = c) (list_sort lt xs) = filter (\<lambda>x. k x = c) xs"
proof -
  obtain run rest where cr: "count_run lt xs = (run, rest)" by (cases "count_run lt xs")
  have sub: "set run \<union> set rest \<subseteq> set xs" using count_run_set [OF cr] by simp
  have s: "sorted (map k run)"
    by (rule count_run_sorted(1) [where A = "set xs" and lt = lt and xs = xs and rest = rest])
      (use assms cr in auto)
  have f: "filter (\<lambda>x. k x = c) (run @ rest) = filter (\<lambda>x. k x = c) xs"
    by (rule count_run_sorted(2) [where A = "set xs" and lt = lt])
      (use assms cr in auto)
  from binarysort_sorted [of "set xs" lt k run rest c, OF _ sub s] assms
  have "sorted (map k (binarysort lt run rest))"
    "filter (\<lambda>x. k x = c) (binarysort lt run rest) = filter (\<lambda>x. k x = c) (run @ rest)"
    by auto
  with f cr show "sorted (map k (list_sort lt xs))"
    and "filter (\<lambda>x. k x = c) (list_sort lt xs) = filter (\<lambda>x. k x = c) xs"
    by (simp_all add: list_sort_def)
qed

lemma float_lt_number: "x \<noteq> NaN \<Longrightarrow> y \<noteq> NaN \<Longrightarrow> float_lt x y \<longleftrightarrow> number x < number y"
  by (cases x; cases y) simp_all

lemma float_le_number: "x \<noteq> NaN \<Longrightarrow> y \<noteq> NaN \<Longrightarrow> float_le x y \<longleftrightarrow> number x \<le> number y"
  by (cases x; cases y) simp_all

lemma number_eq: "number x = number y \<longleftrightarrow> x = y"
  by (cases x; cases y) simp_all

lemma sort_reverse_descending:
  assumes "list_all (\<lambda>x. key x \<noteq> NaN) xs"
  shows "sorted_wrt (\<lambda>a b. float_le (key b) (key a)) (sort_reverse key xs)"
proof -
  let ?lt = "\<lambda>a b. float_lt (key a) (key b)" and ?k = "\<lambda>x. number (key x)"
  have nn: "key x \<noteq> NaN" if "x \<in> set xs" for x
    using assms that by (simp add: list_all_iff)
  have "?lt a b \<longleftrightarrow> ?k a < ?k b" if "a \<in> set (rev xs)" "b \<in> set (rev xs)" for a b
    using that nn by (simp add: float_lt_number)
  then have "sorted (map ?k (list_sort ?lt (rev xs)))"
    by (rule list_sort_sorted(1))
  then have "sorted_wrt (\<lambda>a b. ?k a \<le> ?k b) (list_sort ?lt (rev xs))"
    by (simp add: sorted_map)
  then have "sorted_wrt (\<lambda>a b. ?k b \<le> ?k a) (sort_reverse key xs)"
    by (simp add: sort_reverse_def sorted_wrt_rev)
  then show ?thesis
  proof (rule sorted_wrt_mono_rel [rotated])
    fix a b
    assume "a \<in> set (sort_reverse key xs)" "b \<in> set (sort_reverse key xs)" "?k b \<le> ?k a"
    then show "float_le (key b) (key a)" using nn by (simp add: float_le_number)
  qed
qed

lemma sort_reverse_stable:
  assumes "list_all (\<lambda>x. key x \<noteq> NaN) xs"
  shows "filter (\<lambda>x. key x = c) (sort_reverse key xs) = filter (\<lambda>x. key x = c) xs"
proof -
  let ?lt = "\<lambda>a b. float_lt (key a) (key b)" and ?k = "\<lambda>x. number (key x)"
  have nn: "key x \<noteq> NaN" if "x \<in> set xs" for x
    using assms that by (simp add: list_all_iff)
  have ord: "?lt a b \<longleftrightarrow> ?k a < ?k b" if "a \<in> set (rev xs)" "b \<in> set (rev xs)" for a b
    using that nn by (simp add: float_lt_number)
  have cls: "(\<lambda>x. key x = c) = (\<lambda>x. ?k x = number c)"
    by (simp add: number_eq)
  have "filter (\<lambda>x. ?k x = number c) (list_sort ?lt (rev xs)) = filter (\<lambda>x. ?k x = number c) (rev xs)"
    using ord by (rule list_sort_sorted(2))
  then have "filter (\<lambda>x. key x = c) (list_sort ?lt (rev xs)) = filter (\<lambda>x. key x = c) (rev xs)"
    unfolding cls .
  then have "rev (filter (\<lambda>x. key x = c) (list_sort ?lt (rev xs))) = rev (filter (\<lambda>x. key x = c) (rev xs))"
    by simp
  then show ?thesis
    by (simp add: sort_reverse_def rev_filter)
qed

lemma sorted_wrt_within_classes:
  "sorted_wrt P xs \<Longrightarrow> (\<And>c. sorted_wrt Q (filter (\<lambda>x. k x = c) xs)) \<Longrightarrow>
     sorted_wrt (\<lambda>a b. P a b \<and> (k a = k b \<longrightarrow> Q a b)) xs"
proof (induction xs)
  case Nil
  show ?case by simp
next
  case (Cons x xs)
  have tail: "sorted_wrt Q (filter (\<lambda>y. k y = c) xs)" for c
    using Cons.prems(2) [of c] by (cases "k x = c") simp_all
  have "Q x y" if "y \<in> set xs" "k x = k y" for y
    using Cons.prems(2) [of "k x"] that by auto
  with Cons.prems(1) Cons.IH tail show ?case by auto
qed

lemma two_sorts_ordered:
  assumes "list_all (\<lambda>x. k2 x \<noteq> NaN) xs"
  shows "sorted_wrt (\<lambda>a b. float_le (k2 b) (k2 a)) (sort_reverse k2 (sort_reverse k1 xs))"
    and "list_all (\<lambda>x. k1 x \<noteq> NaN) xs \<Longrightarrow>
           sorted_wrt (\<lambda>a b. float_le (k2 b) (k2 a) \<and> (k2 a = k2 b \<longrightarrow> float_le (k1 b) (k1 a)))
             (sort_reverse k2 (sort_reverse k1 xs))"
proof -
  have n2: "list_all (\<lambda>x. k2 x \<noteq> NaN) (sort_reverse k1 xs)"
    using assms by (simp add: list_all_iff)
  show outer: "sorted_wrt (\<lambda>a b. float_le (k2 b) (k2 a)) (sort_reverse k2 (sort_reverse k1 xs))"
    using n2 by (rule sort_reverse_descending)
  assume n1: "list_all (\<lambda>x. k1 x \<noteq> NaN) xs"
  show "sorted_wrt (\<lambda>a b. float_le (k2 b) (k2 a) \<and> (k2 a = k2 b \<longrightarrow> float_le (k1 b) (k1 a)))
          (sort_reverse k2 (sort_reverse k1 xs))"
  proof (rule sorted_wrt_within_classes [OF outer])
    fix c
    have "sorted_wrt (\<lambda>a b. float_le (k1 b) (k1 a)) (filter (\<lambda>x. k2 x = c) (sort_reverse k1 xs))"
      by (rule sorted_wrt_filter) (rule sort_reverse_descending [OF n1])
    then show "sorted_wrt (\<lambda>a b. float_le (k1 b) (k1 a))
                 (filter (\<lambda>x. k2 x = c) (sort_reverse k2 (sort_reverse k1 xs)))"
      by (simp add: sort_reverse_stable [OF n2])
  qed
qed

subsection \<open>Ranking\<close>

lemma store_cross_scores_map:
  "store_cross_scores hits (map g hits) = Inr (map (\<lambda>h. h\<lparr>cross_score := Some (g h)\<rparr>) hits)"
proof -
  have "map (\<lambda>(h, s). h\<lparr>cross_score := Some s\<rparr>) (zip hits (map g hits)) =
          map (\<lambda>h. h\<lparr>cross_score := Some (g h)\<rparr>) hits"
    by (induction hits) auto
  then show ?thesis by (simp add: store_cross_scores_def)
qed

lemma rank_hits_False: "rank_hits model q ents False hits = Inr (sort_reverse score hits)"
  by (simp add: rank_hits_def)

lemma rank_hits_True:
  "rank_hits model q ents True hits =
     (if list_all (\<lambda>h. corpus_id h < length ents) hits
      then Inr (sort_reverse (\<lambda>h. the (cross_score h))
                  (sort_reverse score (with_cross_scores model q ents hits)))
      else Inl IndexError)"
proof (cases "list_all (\<lambda>h. corpus_id h < length ents) hits")
  case False
  then show ?thesis by (simp add: rank_hits_def cross_inp_def)
next
  case True
  have "map (\<lambda>(a, b). cross_encoder model a b) (map (\<lambda>h. (q, compiled (ents ! corpus_id h))) hits)
          = map (\<lambda>h. cross_encoder model q (compiled (ents ! corpus_id h))) hits"
    by simp
  moreover have "list_all (\<lambda>h. cross_score h \<noteq> None)
                   (sort_reverse score (with_cross_scores model q ents hits))"
    by (simp add: list_all_iff with_cross_scores_def)
  ultimately show ?thesis
    using True
    by (simp add: rank_hits_def cross_inp_def store_cross_scores_map sort_by_cross_score_def
        with_cross_scores_def del: map_map)
qed

lemma rank_hits_keeps:
  assumes "rank_hits model q ents rank_results hits = Inr ranked" and "h \<in> set ranked"
  shows "\<exists>h0\<in>set hits. corpus_id h = corpus_id h0 \<and> score h = score h0"
proof (cases rank_results)
  case False
  with assms show ?thesis by (auto simp: rank_hits_False)
next
  case True
  with assms have "h \<in> set (with_cross_scores model q ents hits)"
    by (auto simp: rank_hits_True split: if_splits)
  then show ?thesis by (auto simp: with_cross_scores_def)
qed

lemma rank_hits_total:
  "list_all (\<lambda>h. corpus_id h < length ents) hits \<Longrightarrow>
     \<exists>ranked. rank_hits model q ents rank_results hits = Inr ranked"
  by (cases rank_results) (simp_all add: rank_hits_False rank_hits_True)

lemma rank_hits_ordered:
  assumes "rank_hits model q ents rank_results hits = Inr ranked"
  shows "(\<not> rank_results \<longrightarrow> list_all (\<lambda>h. score h \<noteq> NaN) ranked \<longrightarrow>
            sorted_wrt (\<lambda>a b. float_le (score b) (score a)) ranked)
         \<and> (rank_results \<longrightarrow>
              list_all (\<lambda>h. cross_score h \<noteq> None) ranked
              \<and> (list_all (\<lambda>h. cross_score h \<noteq> Some NaN) ranked \<longrightarrow>
                   sorted_wrt (\<lambda>a b. float_le (the (cross_score b)) (the (cross_score a))) ranked
                   \<and> (list_all (\<lambda>h. score h \<noteq> NaN) ranked \<longrightarrow>
                        sorted_wrt (\<lambda>a b. float_le (the (cross_score b)) (the (cross_score a))
                                        \<and> (the (cross_score a) = the (cross_score b)
                                             \<longrightarrow> float_le (score b) (score a)))
                          ranked)))"
proof (cases rank_results)
  case False
  with assms have r: "ranked = sort_reverse score hits" by (simp add: rank_hits_False)
  have "sorted_wrt (\<lambda>a b. float_le (score b) (score a)) ranked"
    if "list_all (\<lambda>h. score h \<noteq> NaN) ranked"
  proof -
    from that have "list_all (\<lambda>h. score h \<noteq> NaN) hits" by (simp add: r list_all_iff)
    then show ?thesis unfolding r by (rule sort_reverse_descending)
  qed
  with False show ?thesis by simp
next
  case True
  let ?scored = "with_cross_scores model q ents hits"
  let ?cs = "\<lambda>h. the (cross_score h)"
  from True assms have r: "ranked = sort_reverse ?cs (sort_reverse score ?scored)"
    by (auto simp: rank_hits_True split: if_splits)
  have some: "list_all (\<lambda>h. cross_score h \<noteq> None) ranked"
    unfolding r by (simp add: list_all_iff with_cross_scores_def)
  have mem: "set ranked = set ?scored" by (simp add: r)
  have ordered:
    "sorted_wrt (\<lambda>a b. float_le (?cs b) (?cs a)) ranked
     \<and> (list_all (\<lambda>h. score h \<noteq> NaN) ranked \<longrightarrow>
          sorted_wrt (\<lambda>a b. float_le (?cs b) (?cs a) \<and> (?cs a = ?cs b \<longrightarrow> float_le (score b) (score a)))
            ranked)"
    if nn: "list_all (\<lambda>h. cross_score h \<noteq> Some NaN) ranked"
  proof -
    have n2: "list_all (\<lambda>h. ?cs h \<noteq> NaN) ?scored"
      using nn some mem by (fastforce simp: list_all_iff)
    have "sorted_wrt (\<lambda>a b. float_le (?cs b) (?cs a)) ranked"
      unfolding r using n2 by (rule two_sorts_ordered(1))
    moreover have "sorted_wrt (\<lambda>a b. float_le (?cs b) (?cs a) \<and> (?cs a = ?cs b \<longrightarrow> float_le (score b) (score a)))
            ranked"
      if "list_all (\<lambda>h. score h \<noteq> NaN) ranked"
    proof -
      from that mem have "list_all (\<lambda>h. score h \<noteq> NaN) ?scored" by (simp add: list_all_iff)
      with n2 show ?thesis unfolding r by (rule two_sorts_ordered(2))
    qed
    ultimately show ?thesis by simp
  qed
  from True some ordered show ?thesis by simp
qed

subsection \<open>The query pipeline\<close>

lemma query_cases:
  assumes "filter_step ext raw_query model = (q, ids)"
  shows "query ext raw_query model rank_results =
     (if ids = [] then Inr ([], [])
      else if \<not> list_all (\<lambda>i. i < length (entries model)) ids then Inl IndexError
      else if \<not> list_all (\<lambda>i. i < length (corpus_embeddings model)) ids then Inl IndexError
      else (case rank_hits model q (map (\<lambda>i. entries model ! i) ids) rank_results
                   (found_hits ext model q ids) of
              Inl err \<Rightarrow> Inl err
            | Inr ranked \<Rightarrow> Inr (ranked, map (\<lambda>i. entries model ! i) ids)))"
  using assms
  by (simp add: query_def select_entries_def index_select_def found_hits_def Let_def)

lemma found_hits_contract:
  assumes "search_contract ext" and "h \<in> set (found_hits ext model q ids)"
  shows "corpus_id h < length ids
         \<and> score h = dot_score ext (normalize_embeddings ext (bi_encoder model q))
                       (corpus_embeddings model ! (ids ! corpus_id h))"
proof -
  let ?rows = "map (\<lambda>i. corpus_embeddings model ! i) ids"
  let ?qe = "normalize_embeddings ext (bi_encoder model q)"
  from assms(2) obtain i s where
    mem: "(i, s) \<in> set (semantic_search ext (dot_score ext) ?qe ?rows (top_k model))"
    and h: "h = \<lparr>corpus_id = i, score = s, cross_score = None\<rparr>"
    by (auto simp: found_hits_def)
  from assms(1) have "list_all (\<lambda>(i, s). i < length ?rows \<and> s = dot_score ext ?qe (?rows ! i))
                        (semantic_search ext (dot_score ext) ?qe ?rows (top_k model))"
    unfolding search_contract_def by blast
  with mem have "i < length ?rows \<and> s = dot_score ext ?qe (?rows ! i)"
    by (auto simp: list_all_iff)
  with h show ?thesis by simp
qed

lemma apply_filters_subset:
  assumes "\<And>xs S. set (isect xs S) = set xs \<inter> S"
  shows "set (snd (apply_filters isect fs ents (q, included))) \<subseteq> set included"
proof (induction fs arbitrary: q included)
  case Nil
  show ?case by simp
next
  case (Cons f fs)
  obtain q' S where a: "apply_filter f q ents = (q', S)" by (cases "apply_filter f q ents")
  have "set (snd (apply_filters isect fs ents (q', isect included S))) \<subseteq> set (isect included S)"
    by (rule Cons.IH)
  also have "\<dots> \<subseteq> set included" by (simp add: assms)
  finally show ?case by (simp add: a)
qed

lemma filter_step_in_range:
  assumes "intersection_contract ext"
  shows "set (snd (filter_step ext raw_query model)) \<subseteq> {..<length (entries model)}"
proof -
  have "\<And>xs S. set (intersection_update ext xs S) = set xs \<inter> S"
    using assms by (simp add: intersection_contract_def)
  from apply_filters_subset [of "intersection_update ext", OF this]
  show ?thesis by (fastforce simp: filter_step_def Let_def)
qed

lemma filter_step_no_filters:
  assumes "list_all (\<lambda>f. \<not> can_filter f raw_query) (filters model)"
  shows "filter_step ext raw_query model = (raw_query, [0..<length (entries model)])"
proof -
  have "filter (\<lambda>f. can_filter f raw_query) (filters model) = []"
    using assms by (simp add: list_all_iff filter_empty_conv)
  then show ?thesis by (simp add: filter_step_def)
qed

lemma ref_search_contract: "search_contract ref_externals"
proof -
  have "list_all (\<lambda>(i, s). i < length rows \<and> s = sf q (rows ! i)) (dot_search sf q rows k)"
    for sf :: "int list \<Rightarrow> int list \<Rightarrow> int pyfloat" and q rows k
  proof -
    have "set (dot_search sf q rows k) \<subseteq> set (map (\<lambda>i. (i, sf q (rows ! i))) [0..<length rows])"
      unfolding dot_search_def using set_take_subset [of k] by (metis set_sort_reverse)
    then show ?thesis by (auto simp: list_all_iff)
  qed
  then show ?thesis by (simp add: search_contract_def ref_externals_def)
qed

lemma ref_intersection_contract: "intersection_contract ref_externals"
  by (auto simp: intersection_contract_def ref_externals_def)

text \<open>
  C1, for scores that are numbers. When \<open>rank_results\<close> is false and no returned hit
  has NaN for its bi-encoder score, the hits are in descending order of the bi-encoder
  score. When \<open>rank_results\<close> is true, every hit has a cross-encoder score; when none of
  these is NaN, the hits are in descending order of the cross-encoder score; and when
  also no bi-encoder score is NaN, hits with equal cross-encoder scores are in descending
  order of the bi-encoder score.
\<close>

theorem query_hits_ordered:
  assumes "query ext raw_query model rank_results = Inr (hits, ents)"
  shows "(\<not> rank_results \<longrightarrow> list_all (\<lambda>h. score h \<noteq> NaN) hits \<longrightarrow>
            sorted_wrt (\<lambda>a b. float_le (score b) (score a)) hits)
         \<and> (rank_results \<longrightarrow>
              list_all (\<lambda>h. cross_score h \<noteq> None) hits
              \<and> (list_all (\<lambda>h. cross_score h \<noteq> Some NaN) hits \<longrightarrow>
                   sorted_wrt (\<lambda>a b. float_le (the (cross_score b)) (the (cross_score a))) hits
                   \<and> (list_all (\<lambda>h. score h \<noteq> NaN) hits \<longrightarrow>
                        sorted_wrt (\<lambda>a b. float_le (the (cross_score b)) (the (cross_score a))
                                        \<and> (the (cross_score a) = the (cross_score b)
                                             \<longrightarrow> float_le (score b) (score a)))
                          hits)))"
proof -
  obtain q ids where fs: "filter_step ext raw_query model = (q, ids)"
    by (cases "filter_step ext raw_query model")
  show ?thesis
  proof (cases "hits = []")
    case True
    then show ?thesis by simp
  next
    case False
    with assms have "rank_hits model q (map (\<lambda>i. entries model ! i) ids) rank_results
                       (found_hits ext model q ids) = Inr hits"
      unfolding query_cases [OF fs] by (auto split: if_splits sum.splits)
    then show ?thesis by (rule rank_hits_ordered)
  qed
qed

theorem query_hits_ordered_witness:
  "query ref_externals ''ab'' ref_model True =
     Inr ([\<lparr>corpus_id = 0, score = Num 2, cross_score = Some (Num 1)\<rparr>,
           \<lparr>corpus_id = 1, score = Num 1, cross_score = Some (Num 1)\<rparr>,
           \<lparr>corpus_id = 2, score = Num 3, cross_score = Some (Num 0)\<rparr>],
          entries ref_model)
   \<and> list_all (\<lambda>h. cross_score h \<noteq> Some NaN)
       [\<lparr>corpus_id = 0, score = Num (2 :: int), cross_score = Some (Num (1 :: int))\<rparr>,
        \<lparr>corpus_id = 1, score = Num 1, cross_score = Some (Num 1)\<rparr>,
        \<lparr>corpus_id = 2, score = Num 3, cross_score = Some (Num 0)\<rparr>]
   \<and> list_all (\<lambda>h. score h \<noteq> NaN)
       [\<lparr>corpus_id = 0, score = Num (2 :: int), cross_score = Some (Num (1 :: int))\<rparr>,
        \<lparr>corpus_id = 1, score = Num 1, cross_score = Some (Num 1)\<rparr>,
        \<lparr>corpus_id = 2, score = Num 3, cross_score = Some (Num 0)\<rparr>]
   \<and> sorted_wrt (\<lambda>a b. float_le (the (cross_score b)) (the (cross_score a))
                      \<and> (the (cross_score a) = the (cross_score b)
                           \<longrightarrow> float_le (score b) (score a)))
       [\<lparr>corpus_id = 0, score = Num (2 :: int), cross_score = Some (Num (1 :: int))\<rparr>,
        \<lparr>corpus_id = 1, score = Num 1, cross_score = Some (Num 1)\<rparr>,
        \<lparr>corpus_id = 2, score = Num 3, cross_score = Some (Num 0)\<rparr>]"
proof -
  let ?hits = "[\<lparr>corpus_id = 0, score = Num (2 :: int), cross_score = Some (Num (1 :: int))\<rparr>,
        \<lparr>corpus_id = 1, score = Num 1, cross_score = Some (Num 1)\<rparr>,
        \<lparr>corpus_id = 2, score = Num 3, cross_score = Some (Num 0)\<rparr>]"
  have h: "query ref_externals ''ab'' ref_model True = Inr (?hits, entries ref_model)"
    by code_simp
  have c: "list_all (\<lambda>h. cross_score h \<noteq> Some NaN) ?hits" by simp
  have b: "list_all (\<lambda>h. score h \<noteq> NaN) ?hits" by simp
  show ?thesis
    using query_hits_ordered [OF h] h c b by blast
qed

text \<open>
  C1 as stated fails when a score is NaN. With a cross-encoder that gives NaN for one
  entry, the reranked hits come back with the cross-encoder scores 1, NaN, 2 in this
  order: the first hit's cross-encoder score is less than the last hit's.
\<close>

theorem nan_cross_score_counterexample:
  "query ref_externals ''ab'' nan_model True =
     Inr ([\<lparr>corpus_id = 2, score = Num 3, cross_score = Some (Num 1)\<rparr>,
           \<lparr>corpus_id = 0, score = Num 2, cross_score = Some NaN\<rparr>,
           \<lparr>corpus_id = 1, score = Num 1, cross_score = Some (Num 2)\<rparr>],
          entries nan_model)
   \<and> \<not> float_le
         (the (cross_score \<lparr>corpus_id = 1, score = Num (1 :: int), cross_score = Some (Num (2 :: int))\<rparr>))
         (the (cross_score \<lparr>corpus_id = 2, score = Num (3 :: int), cross_score = Some (Num (1 :: int))\<rparr>))
   \<and> float_lt
         (the (cross_score \<lparr>corpus_id = 2, score = Num (3 :: int), cross_score = Some (Num (1 :: int))\<rparr>))
         (the (cross_score \<lparr>corpus_id = 1, score = Num (1 :: int), cross_score = Some (Num (2 :: int))\<rparr>))"
  by code_simp

text \<open>
  C3. On a non-empty entry list, when no filter of the model can filter the query, the
  included indices are \<open>0..len-1\<close> in order and the query is unchanged; the entries a
  query returns are the entries of the model, in order; and the query does return, given
  a search that keeps its contract and one embedding row for each entry.
\<close>

theorem no_filter_keeps_all_entries:
  assumes "entries model \<noteq> []"
    and "list_all (\<lambda>f. \<not> can_filter f raw_query) (filters model)"
  shows "filter_step ext raw_query model = (raw_query, [0..<length (entries model)])
         \<and> (\<forall>hits ents. query ext raw_query model rank_results = Inr (hits, ents)
               \<longrightarrow> ents = entries model)
         \<and> (search_contract ext \<longrightarrow> length (corpus_embeddings model) = length (entries model)
               \<longrightarrow> (\<exists>hits. query ext raw_query model rank_results = Inr (hits, entries model)))"
proof -
  let ?ids = "[0..<length (entries model)]"
  have fs: "filter_step ext raw_query model = (raw_query, ?ids)"
    using assms(2) by (rule filter_step_no_filters)
  have ne: "?ids \<noteq> []" using assms(1) by simp
  have sel: "map (\<lambda>i. entries model ! i) ?ids = entries model" by (rule map_nth)
  have a: "ents = entries model"
    if "query ext raw_query model rank_results = Inr (hits, ents)" for hits ents
    using that ne unfolding query_cases [OF fs] sel
    by (auto split: if_splits sum.splits)
  have b: "\<exists>hits. query ext raw_query model rank_results = Inr (hits, entries model)"
    if c: "search_contract ext" and l: "length (corpus_embeddings model) = length (entries model)"
  proof -
    have "list_all (\<lambda>h. corpus_id h < length (entries model))
            (found_hits ext model raw_query ?ids)"
      using found_hits_contract [OF c, of _ model raw_query ?ids]
      by (auto simp: list_all_iff)
    from rank_hits_total [OF this] obtain ranked where
      "rank_hits model raw_query (entries model) rank_results
         (found_hits ext model raw_query ?ids) = Inr ranked"
      by blast
    then have "query ext raw_query model rank_results = Inr (ranked, entries model)"
      using ne l unfolding query_cases [OF fs] sel by (simp add: list_all_iff)
    then show ?thesis by blast
  qed
  from fs a b show ?thesis by blast
qed

theorem no_filter_keeps_all_entries_witness:
  "entries ref_model \<noteq> []
   \<and> list_all (\<lambda>f. \<not> can_filter f ''ab'') (filters ref_model)
   \<and> filter_step ref_externals ''ab'' ref_model = (''ab'', [0, 1, 2])
   \<and> query ref_externals ''ab'' ref_model False =
       Inr ([\<lparr>corpus_id = 2, score = Num 3, cross_score = None\<rparr>,
             \<lparr>corpus_id = 0, score = Num 2, cross_score = None\<rparr>,
             \<lparr>corpus_id = 1, score = Num 1, cross_score = None\<rparr>],
            entries ref_model)"
proof -
  have a: "entries ref_model \<noteq> []" by (simp add: ref_model_def)
  have b: "list_all (\<lambda>f. \<not> can_filter f ''ab'') (filters ref_model)"
    by (simp add: ref_model_def)
  have n: "[0..<length (entries ref_model)] = [0, 1, 2]" by code_simp
  have q: "query ref_externals ''ab'' ref_model False =
       Inr ([\<lparr>corpus_id = 2, score = Num 3, cross_score = None\<rparr>,
             \<lparr>corpus_id = 0, score = Num 2, cross_score = None\<rparr>,
             \<lparr>corpus_id = 1, score = Num 1, cross_score = None\<rparr>],
            entries ref_model)"
    by code_simp
  show ?thesis
    using no_filter_keeps_all_entries [OF a b, of ref_externals False] a b q
    unfolding n by blast
qed

text \<open>
  C4. On a corpus of size 0 a query returns the empty hit list and the empty entry list,
  without raising, whatever the encoders and the search are.
\<close>

theorem empty_corpus_no_hits:
  assumes "entries model = []" and "intersection_contract ext"
  shows "query ext raw_query model rank_results = Inr ([], [])"
proof -
  obtain q ids where fs: "filter_step ext raw_query model = (q, ids)"
    by (cases "filter_step ext raw_query model")
  have "set ids \<subseteq> {..<length (entries model)}"
    using filter_step_in_range [OF assms(2), of raw_query model] fs by simp
  then have "ids = []" using assms(1) by simp
  then show ?thesis unfolding query_cases [OF fs] by simp
qed

theorem empty_corpus_no_hits_witness:
  "entries (ref_model\<lparr>entries := []\<rparr>) = [] \<and> intersection_contract ref_externals
   \<and> query ref_externals ''+ab'' (ref_model\<lparr>entries := []\<rparr>) True = Inr ([], [])"
proof -
  have a: "entries (ref_model\<lparr>entries := []\<rparr>) = []" by simp
  show ?thesis
    using empty_corpus_no_hits [OF a ref_intersection_contract, of "''+ab''" True] a
      ref_intersection_contract
    by blast
qed

text \<open>
  C9. Every hit a query returns names a place of the returned entry list; the entry there
  and the embedding row the hit was scored against come from the same index of the
  corpus, the one the included indices hold at that place.
\<close>

theorem hits_index_aligned:
  assumes "search_contract ext"
    and "filter_step ext raw_query model = (q, ids)"
    and "query ext raw_query model rank_results = Inr (hits, ents)"
  shows "ents = map (\<lambda>i. entries model ! i) ids
         \<and> list_all (\<lambda>i. i < length (entries model) \<and> i < length (corpus_embeddings model)) ids
         \<and> list_all (\<lambda>h. corpus_id h < length ents
                        \<and> ents ! corpus_id h = entries model ! (ids ! corpus_id h)
                        \<and> score h =
                            dot_score ext (normalize_embeddings ext (bi_encoder model q))
                              (corpus_embeddings model ! (ids ! corpus_id h)))
             hits"
proof (cases "ids = []")
  case True
  with assms(3) show ?thesis unfolding query_cases [OF assms(2)] by auto
next
  case False
  let ?ents = "map (\<lambda>i. entries model ! i) ids"
  from False assms(3) have
    r1: "list_all (\<lambda>i. i < length (entries model)) ids" and
    r2: "list_all (\<lambda>i. i < length (corpus_embeddings model)) ids" and
    e: "ents = ?ents" and
    rk: "rank_hits model q ?ents rank_results (found_hits ext model q ids) = Inr hits"
    unfolding query_cases [OF assms(2)] by (auto split: if_splits sum.splits)
  have "corpus_id h < length ents
          \<and> ents ! corpus_id h = entries model ! (ids ! corpus_id h)
          \<and> score h = dot_score ext (normalize_embeddings ext (bi_encoder model q))
                        (corpus_embeddings model ! (ids ! corpus_id h))"
    if "h \<in> set hits" for h
  proof -
    from rank_hits_keeps [OF rk that] obtain h0 where
      h0: "h0 \<in> set (found_hits ext model q ids)" and
      same: "corpus_id h = corpus_id h0" "score h = score h0"
      by blast
    from found_hits_contract [OF assms(1) h0] same e show ?thesis by simp
  qed
  then have "list_all (\<lambda>h. corpus_id h < length ents
                        \<and> ents ! corpus_id h = entries model ! (ids ! corpus_id h)
                        \<and> score h =
                            dot_score ext (normalize_embeddings ext (bi_encoder model q))
                              (corpus_embeddings model ! (ids ! corpus_id h)))
             hits"
    by (simp add: list_all_iff)
  with r1 r2 e show ?thesis by (simp add: list_all_iff)
qed

theorem hits_index_aligned_witness:
  "search_contract ref_externals
   \<and> filter_step ref_externals ''+ab'' ref_model = (''ab'', [1, 2])
   \<and> query ref_externals ''+ab'' ref_model True =
       Inr ([\<lparr>corpus_id = 0, score = Num 1, cross_score = Some (Num 1)\<rparr>,
             \<lparr>corpus_id = 1, score = Num 3, cross_score = Some (Num 0)\<rparr>],
            [\<lparr>compiled = ''# berry'', raw = ''# berry'', entry_file = ''/notes/a.md''\<rparr>,
             \<lparr>compiled = ''# cherry'', raw = ''# cherry'', entry_file = ''/notes/b.md''\<rparr>])
   \<and> list_all (\<lambda>h. corpus_id h < 2
                  \<and> score h = dot [2, 1] (corpus_embeddings ref_model ! ([1, 2] ! corpus_id h)))
       [\<lparr>corpus_id = 0, score = Num (1 :: int), cross_score = Some (Num (1 :: int))\<rparr>,
        \<lparr>corpus_id = 1, score = Num 3, cross_score = Some (Num 0)\<rparr>]"
proof -
  have f: "filter_step ref_externals ''+ab'' ref_model = (''ab'', [1, 2])" by code_simp
  have q: "query ref_externals ''+ab'' ref_model True =
       Inr ([\<lparr>corpus_id = 0, score = Num 1, cross_score = Some (Num 1)\<rparr>,
             \<lparr>corpus_id = 1, score = Num 3, cross_score = Some (Num 0)\<rparr>],
            [\<lparr>compiled = ''# berry'', raw = ''# berry'', entry_file = ''/notes/a.md''\<rparr>,
             \<lparr>compiled = ''# cherry'', raw = ''# cherry'', entry_file = ''/notes/b.md''\<rparr>])"
    by code_simp
  have d: "dot_score ref_externals (normalize_embeddings ref_externals (bi_encoder ref_model ''ab''))
             = dot [2, 1]"
    by (simp add: ref_externals_def ref_model_def)
  show ?thesis
    using hits_index_aligned [OF ref_search_contract f q] f q ref_search_contract
    unfolding d by (simp add: list_all_iff)
qed

subsection \<open>The embedding cache\<close>

text \<open>
  C5. When the embeddings file holds a tensor and regeneration is not asked for, that
  tensor is returned as it is and the state is unchanged: the bi-encoder is not called.
  When the file is not there or regeneration is asked for, the \<^verbatim>\<open>compiled\<close> text of
  every entry is encoded, the result normalised, saved to the file and returned; a later
  call without regeneration returns this same tensor. The path is one that
  \<^verbatim>\<open>get_absolute_path\<close> leaves as it is.
\<close>

theorem compute_embeddings_cache:
  assumes "gap embeddings_file = embeddings_file"
  shows "(tensor_files st embeddings_file = Some cached \<and> \<not> regenerate \<longrightarrow>
            compute_embeddings ext gap st ents encoder embeddings_file regenerate =
              (st, Inr cached))
         \<and> (tensor_files st embeddings_file = None \<or> regenerate \<longrightarrow>
              compute_embeddings ext gap st ents encoder embeddings_file regenerate =
                (st\<lparr>tensor_files := (tensor_files st)(embeddings_file \<mapsto>
                       map (normalize_embeddings ext) (map encoder (map compiled ents))),
                    encode_calls := encode_calls st @ [map compiled ents]\<rparr>,
                 Inr (map (normalize_embeddings ext) (map encoder (map compiled ents))))
              \<and> compute_embeddings ext gap
                  (fst (compute_embeddings ext gap st ents encoder embeddings_file regenerate))
                  ents' encoder' embeddings_file False =
                (fst (compute_embeddings ext gap st ents encoder embeddings_file regenerate),
                 Inr (map (normalize_embeddings ext) (map encoder (map compiled ents)))))"
proof -
  have load: "compute_embeddings ext gap st ents encoder embeddings_file regenerate =
                (st, Inr cached)"
    if "tensor_files st embeddings_file = Some cached" and "\<not> regenerate"
    using that assms by (simp add: compute_embeddings_def)
  let ?corpus = "map (normalize_embeddings ext) (map encoder (map compiled ents))"
  let ?st = "st\<lparr>tensor_files := (tensor_files st)(embeddings_file \<mapsto> ?corpus),
                 encode_calls := encode_calls st @ [map compiled ents]\<rparr>"
  have fresh: "compute_embeddings ext gap st ents encoder embeddings_file regenerate =
                 (?st, Inr ?corpus)"
    if "tensor_files st embeddings_file = None \<or> regenerate"
    using that by (auto simp add: compute_embeddings_def Let_def simp del: map_map)
  have again: "compute_embeddings ext gap ?st ents' encoder' embeddings_file False =
                 (?st, Inr ?corpus)"
    using assms by (simp add: compute_embeddings_def)
  from load fresh again show ?thesis by auto
qed

theorem compute_embeddings_cache_witness:
  "(get_absolute_path notes_env) ''/notes/embeddings.pt'' = ''/notes/embeddings.pt''
   \<and> tensor_files ref_store ''/notes/embeddings.pt'' = Some [[1, 0], [0, 1], [1, 1]]
   \<and> compute_embeddings ref_externals (get_absolute_path notes_env) ref_store (entries ref_model)
         (bi_encoder ref_model) ''/notes/embeddings.pt'' False =
       (ref_store, Inr [[1, 0], [0, 1], [1, 1]])
   \<and> snd (compute_embeddings ref_externals (get_absolute_path notes_env) ref_store (entries ref_model)
         (bi_encoder ref_model) ''/notes/embeddings.pt'' True) =
       Inr [[7, 1], [7, 1], [8, 1]]"
proof -
  have a: "(get_absolute_path notes_env) ''/notes/embeddings.pt'' = ''/notes/embeddings.pt''"
    by code_simp
  have b: "tensor_files ref_store ''/notes/embeddings.pt'' = Some [[1, 0], [0, 1], [1, 1]]"
    by (simp add: ref_store_def)
  have c: "map (normalize_embeddings ref_externals)
             (map (bi_encoder ref_model) (map compiled (entries ref_model))) =
           [[7, 1], [7, 1], [8, 1]]"
    by code_simp
  have l: "compute_embeddings ref_externals (get_absolute_path notes_env) ref_store (entries ref_model)
         (bi_encoder ref_model) ''/notes/embeddings.pt'' False =
       (ref_store, Inr [[1, 0], [0, 1], [1, 1]])"
    using compute_embeddings_cache [where gap = "get_absolute_path notes_env" and st = ref_store
        and embeddings_file = "''/notes/embeddings.pt''" and cached = "[[1, 0], [0, 1], [1, 1]]"
        and regenerate = False and ext = ref_externals and ents = "entries ref_model"
        and encoder = "bi_encoder ref_model"] a b
    by simp
  have r: "snd (compute_embeddings ref_externals (get_absolute_path notes_env) ref_store (entries ref_model)
         (bi_encoder ref_model) ''/notes/embeddings.pt'' True) =
       Inr [[7, 1], [7, 1], [8, 1]]"
    using compute_embeddings_cache [where gap = "get_absolute_path notes_env" and st = ref_store
        and embeddings_file = "''/notes/embeddings.pt''" and regenerate = True
        and ext = ref_externals and ents = "entries ref_model"
        and encoder = "bi_encoder ref_model"] a c
    by simp
  from a b l r show ?thesis by blast
qed

end
